theory Spec2Isabelle
  imports Main "HOL-Library.Word" "HOL-Library.AList"
begin

unbundle bit_operations_syntax

section \<open>Buffers\<close>

text \<open>
  A Node \<open>Buffer\<close> (or \<open>Uint8Array\<close>) is a list of bytes. Reading an index outside the
  buffer yields \<open>undefined\<close> in the source, which is \<open>None\<close> here.
\<close>

type_synonym u8 = "8 word"
type_synonym bytes = "u8 list"

definition at :: "bytes \<Rightarrow> nat \<Rightarrow> u8 option" where
  "at buf i = (if i < length buf then Some (buf ! i) else None)"

text \<open>
  \<open>buf.subarray(start, end)\<close> for non-negative integer offsets: both offsets are clamped
  to the length of the buffer, and the result is empty when \<open>end \<le> start\<close>.
\<close>

definition subarray :: "bytes \<Rightarrow> nat \<Rightarrow> nat \<Rightarrow> bytes" where
  "subarray buf start end = take (end - start) (drop start buf)"

text \<open>\<open>buf.subarray(start)\<close>: up to the end of the buffer.\<close>

definition subarray_from :: "bytes \<Rightarrow> nat \<Rightarrow> bytes" where
  "subarray_from buf start = drop start buf"

text \<open>\<open>Buffer.from(s, 'utf-8')\<close>: a string is kept as the characters of its UTF-8 encoding,
  one \<open>char\<close> per byte.\<close>

definition utf8 :: "string \<Rightarrow> bytes" where
  "utf8 s = map (\<lambda>c. of_nat (of_char c)) s"

section \<open>Errors\<close>

text \<open>
  The exceptions the source throws, or rejects a promise with, one constructor for each
  message it builds; \<open>RangeError\<close> is Node's out-of-range error of the \<open>Buffer\<close>
  readers and writers, \<open>TypeError_Property\<close> is reading a property of \<open>null\<close> or
  \<open>undefined\<close>, and \<open>Error_Aead\<close> is whatever the AEAD library throws.
\<close>

datatype error =
    Error_NotConnected
  | Error_ConnectionLost
  | Error_AuthTimeout nat
  | Error_OpackTimeout nat
  | Error_UnsupportedIntegerSize nat
  | TypeError_UnsupportedType
  | TypeError_UnknownOpackType
  | TypeError_Property
  | RangeError
  | Error_Aead

section \<open>TLV8 codec (pairing/tlv)\<close>

text \<open>
  \<open>TlvData = Map<number, Buffer>\<close>. A JavaScript \<open>Map\<close> iterates in insertion order and
  \<open>set\<close> on a present key replaces the value in place, which is what \<open>AList.update\<close>
  does on an association list.
\<close>

type_synonym TlvData = "(nat \<times> bytes) list"

text \<open>
  One pass of the \<open>while (pos < data.length)\<close> loop of \<open>readTlv\<close>. When the length byte
  is missing (\<open>data[pos + 1]\<close> is \<open>undefined\<close>) the value is the empty
  \<open>subarray(pos + 2, NaN)\<close>, \<open>pos\<close> becomes \<open>NaN\<close> and the loop condition fails.
\<close>

definition readTlv_store :: "TlvData \<Rightarrow> nat \<Rightarrow> bytes \<Rightarrow> TlvData" where
  "readTlv_store result tag val =
     (case map_of result tag of
        Some old \<Rightarrow> AList.update tag (old @ val) result
      | None \<Rightarrow> AList.update tag val result)"

function readTlv_loop :: "bytes \<Rightarrow> nat \<Rightarrow> TlvData \<Rightarrow> TlvData" where
  "readTlv_loop data pos result =
     (if pos < length data then
        (let tag = unat (data ! pos) in
         case at data (pos + 1) of
           None \<Rightarrow> readTlv_store result tag []
         | Some l \<Rightarrow>
             (let len = unat l;
                  val = subarray data (pos + 2) (pos + 2 + len)
              in readTlv_loop data (pos + 2 + len) (readTlv_store result tag val)))
      else result)"
  by pat_completeness auto
termination
  by (relation "measure (\<lambda>(data, pos, result). length data - pos)") auto

definition readTlv :: "bytes \<Rightarrow> TlvData" where
  "readTlv data = readTlv_loop data 0 []"

text \<open>
  The inner \<open>while (pos < value.length || remaining === 0)\<close> loop of \<open>writeTlv\<close>, with
  its \<open>break\<close>. The loop is written as the source has it, on \<open>pos\<close> and \<open>remaining\<close>;
  a run that does not leave the loop is \<open>None\<close>.
\<close>

partial_function (option) writeTlv_while ::
  "bytes \<Rightarrow> bytes \<Rightarrow> nat \<Rightarrow> nat \<Rightarrow> bytes list \<Rightarrow> bytes list option" where
  "writeTlv_while tag val pos remaining parts =
     (if pos < length val \<or> remaining = 0 then
        (let size = min remaining 255;
             parts1 = parts @ [tag, [of_nat size]];
             parts2 = (if size > 0 then parts1 @ [subarray val pos (pos + size)] else parts1);
             pos' = pos + size;
             remaining' = remaining - size
         in if remaining' = 0 \<and> pos' \<ge> length val then Some parts2
            else writeTlv_while tag val pos' remaining' parts2)
      else Some parts)"

text \<open>The outer \<open>for (const [key, value] of entries)\<close> loop; \<open>Buffer.from([key])\<close> keeps
  the low eight bits of the key.\<close>

fun writeTlv_for :: "TlvData \<Rightarrow> bytes list \<Rightarrow> bytes list option" where
  "writeTlv_for [] parts = Some parts"
| "writeTlv_for ((key, val) # entries) parts =
     (case writeTlv_while [of_nat key] val 0 (length val) parts of
        None \<Rightarrow> None
      | Some parts' \<Rightarrow> writeTlv_for entries parts')"

definition writeTlv :: "TlvData \<Rightarrow> bytes option" where
  "writeTlv data = map_option concat (writeTlv_for data [])"

text \<open>
  The specification's description of the TLV8 wire format, for comparison with the code:
  a value is cut into consecutive chunks of at most 255 bytes (a single empty chunk for
  an empty value), each chunk is one record \<open>tag, length, chunk\<close>, and a reader adds
  each record's chunk to what it already holds under the tag.
\<close>

function spec_chunks :: "bytes \<Rightarrow> bytes list" where
  "spec_chunks v = (if length v \<le> 255 then [v] else take 255 v # spec_chunks (drop 255 v))"
  by pat_completeness auto
termination
  by (relation "measure length") auto

definition spec_record :: "u8 \<Rightarrow> bytes \<Rightarrow> bytes" where
  "spec_record tag chunk = [tag, of_nat (length chunk)] @ chunk"

definition spec_records :: "u8 \<Rightarrow> bytes \<Rightarrow> bytes" where
  "spec_records tag v = concat (map (spec_record tag) (spec_chunks v))"

definition readTlv_stores :: "(u8 \<times> bytes) list \<Rightarrow> TlvData \<Rightarrow> TlvData" where
  "readTlv_stores recs result = fold (\<lambda>(t, c) r. readTlv_store r (unat t) c) recs result"

text \<open>
  The specification's "a declared length exceeds remaining input": scanning record by
  record, some length byte is larger than the number of bytes that follow it.
\<close>

fun spec_truncated :: "bytes \<Rightarrow> bool" where
  "spec_truncated (t # l # rest) = (length rest < unat l \<or> spec_truncated (drop (unat l) rest))"
| "spec_truncated _ = False"

section \<open>ChaCha20-Poly1305 with counter nonces (crypto/chacha20)\<close>

definition NONCE_LENGTH :: nat where
  "NONCE_LENGTH = 12"

definition AUTH_TAG_LENGTH :: nat where
  "AUTH_TAG_LENGTH = 16"

text \<open>
  The fields of the class. The counters are JavaScript numbers holding non-negative
  integers; they are naturals here, and \<open>++\<close> is \<open>+ 1\<close> (exact in the source below
  \<open>2 ^ 53\<close>).
\<close>

record Chacha20Cipher =
  outKey :: bytes
  inKey :: bytes
  outCounter :: nat
  inCounter :: nat
  nonceLength :: nat

definition new_Chacha20Cipher :: "bytes \<Rightarrow> bytes \<Rightarrow> nat \<Rightarrow> Chacha20Cipher" where
  "new_Chacha20Cipher ok ik nl =
     \<lparr>outKey = ok, inKey = ik, outCounter = 0, inCounter = 0, nonceLength = nl\<rparr>"

definition new_Chacha20Cipher8byteNonce :: "bytes \<Rightarrow> bytes \<Rightarrow> Chacha20Cipher" where
  "new_Chacha20Cipher8byteNonce ok ik = new_Chacha20Cipher ok ik 8"

text \<open>
  The library call \<open>chacha20poly1305(key, nonce, aad).encrypt(data)\<close> (and \<open>decrypt\<close>)
  is not part of the repository: the cipher takes it as a parameter, a function of the
  key, the nonce, the optional associated data and the input that returns the output
  or throws.
\<close>

type_synonym aead = "bytes \<Rightarrow> bytes \<Rightarrow> bytes option \<Rightarrow> bytes \<Rightarrow> error + bytes"

definition padNonce :: "bytes \<Rightarrow> bytes" where
  "padNonce nonce =
     (if length nonce \<ge> NONCE_LENGTH then nonce
      else replicate (NONCE_LENGTH - length nonce) 0 @ nonce)"

text \<open>The loop of \<open>writeLECounter\<close>: \<open>buf[i] = Number(c & 0xffn); c >>= 8n\<close>.\<close>

function writeLECounter_loop :: "bytes \<Rightarrow> nat \<Rightarrow> nat \<Rightarrow> nat \<Rightarrow> bytes" where
  "writeLECounter_loop buf c len i =
     (if i < len \<and> i < 8
      then writeLECounter_loop (buf[i := of_nat (c AND 0xff)]) (drop_bit 8 c) len (i + 1)
      else buf)"
  by pat_completeness auto
termination
  by (relation "measure (\<lambda>(buf, c, len, i). 8 - i)") auto

definition writeLECounter :: "bytes \<Rightarrow> nat \<Rightarrow> nat \<Rightarrow> bytes" where
  "writeLECounter buf counter len = writeLECounter_loop buf counter len 0"

definition getOutNonce :: "Chacha20Cipher \<Rightarrow> bytes" where
  "getOutNonce c =
     (let nonce = writeLECounter (replicate (nonceLength c) 0) (outCounter c) (nonceLength c)
      in if nonceLength c \<noteq> NONCE_LENGTH then padNonce nonce else nonce)"

definition getInNonce :: "Chacha20Cipher \<Rightarrow> bytes" where
  "getInNonce c =
     (let nonce = writeLECounter (replicate (nonceLength c) 0) (inCounter c) (nonceLength c)
      in if nonceLength c \<noteq> NONCE_LENGTH then padNonce nonce else nonce)"

text \<open>
  \<open>encrypt\<close> and \<open>decrypt\<close> return the library's result together with the cipher
  after the call: the counter is advanced before the library is called, so it stays
  advanced when the library throws.
\<close>

definition encrypt ::
  "aead \<Rightarrow> Chacha20Cipher \<Rightarrow> bytes \<Rightarrow> bytes option \<Rightarrow> bytes option
     \<Rightarrow> (error + bytes) \<times> Chacha20Cipher" where
  "encrypt lib_encrypt c data nonce aad =
     (case nonce of
        None \<Rightarrow>
          (let useNonce = getOutNonce c;
               c' = c\<lparr>outCounter := outCounter c + 1\<rparr>
           in (lib_encrypt (outKey c') useNonce aad data, c'))
      | Some n \<Rightarrow>
          (let useNonce = (if length n < NONCE_LENGTH then padNonce n else n)
           in (lib_encrypt (outKey c) useNonce aad data, c)))"

definition decrypt ::
  "aead \<Rightarrow> Chacha20Cipher \<Rightarrow> bytes \<Rightarrow> bytes option \<Rightarrow> bytes option
     \<Rightarrow> (error + bytes) \<times> Chacha20Cipher" where
  "decrypt lib_decrypt c data nonce aad =
     (case nonce of
        None \<Rightarrow>
          (let useNonce = getInNonce c;
               c' = c\<lparr>inCounter := inCounter c + 1\<rparr>
           in (lib_decrypt (inKey c') useNonce aad data, c'))
      | Some n \<Rightarrow>
          (let useNonce = (if length n < NONCE_LENGTH then padNonce n else n)
           in (lib_decrypt (inKey c) useNonce aad data, c)))"

text \<open>The specification's wording of the counter nonce: the 64-bit counter, little-endian.\<close>

definition spec_le64 :: "nat \<Rightarrow> bytes" where
  "spec_le64 n = map (\<lambda>i. of_nat (n div 256 ^ i)) [0..<8]"

section \<open>Framed transport (companion/connection)\<close>

definition HEADER_LENGTH :: nat where
  "HEADER_LENGTH = 4"

text \<open>
  The fields of \<open>CompanionConnection\<close> that \<open>send\<close> reads and writes. The socket is
  \<open>null\<close> (\<open>None\<close>) or holds the buffers written to it so far, one per call of
  \<open>socket.write\<close>.
\<close>

record CompanionConnection =
  socket :: "bytes list option"
  chacha :: "Chacha20Cipher option"
  connected :: bool

definition frame_header :: "nat \<Rightarrow> nat \<Rightarrow> bytes" where
  "frame_header frameType payloadLength =
     [of_nat frameType,
      of_nat (drop_bit 16 payloadLength AND 0xff),
      of_nat (drop_bit 8 payloadLength AND 0xff),
      of_nat (payloadLength AND 0xff)]"

definition send ::
  "aead \<Rightarrow> nat \<Rightarrow> bytes \<Rightarrow> CompanionConnection \<Rightarrow> (error + unit) \<times> CompanionConnection" where
  "send lib_encrypt frameType data conn =
     (case socket conn of
        None \<Rightarrow> (Inl Error_NotConnected, conn)
      | Some written \<Rightarrow>
          if \<not> connected conn then (Inl Error_NotConnected, conn)
          else
            (let payloadLength =
                   (if chacha conn \<noteq> None \<and> length data > 0
                    then length data + AUTH_TAG_LENGTH else length data);
                 header = frame_header frameType payloadLength
             in case chacha conn of
                  None \<Rightarrow> (Inr (), conn\<lparr>socket := Some (written @ [header @ data])\<rparr>)
                | Some c \<Rightarrow>
                    if length data > 0 then
                      (case encrypt lib_encrypt c data None (Some header) of
                         (Inl e, c') \<Rightarrow> (Inl e, conn\<lparr>chacha := Some c'\<rparr>)
                       | (Inr payload, c') \<Rightarrow>
                           (Inr (), conn\<lparr>socket := Some (written @ [header @ payload]),
                                         chacha := Some c'\<rparr>))
                    else (Inr (), conn\<lparr>socket := Some (written @ [header @ data])\<rparr>)))"

definition enableEncryption :: "bytes \<Rightarrow> bytes \<Rightarrow> CompanionConnection \<Rightarrow> CompanionConnection" where
  "enableEncryption outputKey inputKey conn =
     conn\<lparr>chacha := Some (new_Chacha20Cipher outputKey inputKey 12)\<rparr>"

definition close :: "CompanionConnection \<Rightarrow> CompanionConnection" where
  "close conn = conn\<lparr>connected := False, socket := None\<rparr>"

text \<open>
  The specification's wording of the frame header: the type byte, then the length as
  three bytes, most significant first; \<open>be_value\<close> reads big-endian bytes back.
\<close>

definition spec_be24 :: "nat \<Rightarrow> bytes" where
  "spec_be24 n = [of_nat (n div 65536), of_nat (n div 256), of_nat n]"

definition be_value :: "bytes \<Rightarrow> nat" where
  "be_value bs = foldl (\<lambda>a b. a * 256 + unat b) 0 bs"

section \<open>OPACK codec (opack)\<close>

subsection \<open>JavaScript values\<close>

text \<open>
  The values \<open>pack\<close> accepts and \<open>unpack\<close> returns. A number is a double: one with an
  integer value is \<open>Integer\<close>, any other one is \<open>NonInteger\<close> and is kept as the eight
  bytes \<open>writeDoubleLE\<close> writes for it. \<open>JOpackFloat\<close> is the wrapper class, with the
  eight bytes of its number. A string is kept as its UTF-8 encoding, so decoding those
  bytes gives the string back (the source substitutes U+FFFD in byte sequences that are
  not UTF-8, which the embedding does not follow). An object is the list of its
  \<open>Object.entries\<close>, its own properties in the order the language enumerates them:
  \<open>set_property\<close> below is the assignment \<open>output[key] = v\<close>. \<open>JOther\<close> stands for
  the values of every other type (functions, symbols, bigints).
\<close>

datatype jsnumber = Integer int | NonInteger bytes

datatype jsvalue =
    JUndefined
  | JNull
  | JBool bool
  | JNum jsnumber
  | JOpackFloat bytes
  | JStr string
  | JBuf bytes
  | JArr "jsvalue list"
  | JObj "(string \<times> jsvalue) list"
  | JOther

text \<open>
  What the decoder needs of the JavaScript runtime and does not compute itself: the
  number a \<open>readFloatLE\<close> or \<open>readDoubleLE\<close> yields for four or eight bytes, the
  double nearest to an integer above \<open>2 ^ 53\<close> (\<open>Number\<close> of a bigint), and \<open>String\<close>
  of a value that is not a string. They are parameters of the decoder.
\<close>

record runtime =
  rt_readFloatLE :: "bytes \<Rightarrow> jsnumber"
  rt_readDoubleLE :: "bytes \<Rightarrow> jsnumber"
  rt_Number :: "nat \<Rightarrow> jsnumber"
  rt_String :: "jsvalue \<Rightarrow> string"

definition js_Number :: "runtime \<Rightarrow> nat \<Rightarrow> jsnumber" where
  "js_Number rt n = (if n \<le> 2 ^ 53 then Integer (int n) else rt_Number rt n)"

definition js_String :: "runtime \<Rightarrow> jsvalue \<Rightarrow> string" where
  "js_String rt k = (case k of JStr s \<Rightarrow> s | _ \<Rightarrow> rt_String rt k)"

text \<open>\<open>buf.toString('utf-8')\<close>, on the bytes of a UTF-8 string.\<close>

definition utf8_toString :: "bytes \<Rightarrow> string" where
  "utf8_toString bs = map (\<lambda>b. char_of (unat b)) bs"

text \<open>Little-endian integers: \<open>writeUIntLE(n, _, k)\<close> and the value of the bytes read.\<close>

definition le_bytes :: "nat \<Rightarrow> nat \<Rightarrow> bytes" where
  "le_bytes k n = map (\<lambda>i. of_nat (n div 256 ^ i)) [0..<k]"

definition le_value :: "bytes \<Rightarrow> nat" where
  "le_value bs = foldr (\<lambda>b a. unat b + 256 * a) bs 0"

subsection \<open>Encoder\<close>

definition packInteger :: "int \<Rightarrow> error + bytes" where
  "packInteger data =
     (if data \<ge> 0 \<and> data < 0x28 then Inr [of_int (data + 8)]
      else if data \<ge> 0 \<and> data \<le> 0xff then Inr [0x30, of_int data]
      else if data \<ge> 0 \<and> data \<le> 0xffff then Inr (0x31 # le_bytes 2 (nat data))
      else if data \<ge> 0 \<and> data \<le> 0xffffffff then Inr (0x32 # le_bytes 4 (nat data))
      else if data \<ge> 0 \<and> data < 2 ^ 64 then Inr (0x33 # le_bytes 8 (nat data))
      else Inl RangeError)"

definition packString :: "string \<Rightarrow> error + bytes" where
  "packString data =
     (let encoded = utf8 data in
      if length encoded \<le> 0x20 then Inr ([0x40 + of_nat (length encoded)] @ encoded)
      else if length encoded \<le> 0xff then Inr ([0x61, of_nat (length encoded)] @ encoded)
      else if length encoded \<le> 0xffff then Inr ((0x62 # le_bytes 2 (length encoded)) @ encoded)
      else if length encoded \<le> 0xffffff then Inr ((0x63 # le_bytes 3 (length encoded)) @ encoded)
      else if length encoded \<le> 0xffffffff
        then Inr ((0x64 # le_bytes 4 (length encoded)) @ encoded)
      else Inl RangeError)"

definition packBytes :: "bytes \<Rightarrow> error + bytes" where
  "packBytes data =
     (if length data \<le> 0x20 then Inr ([0x70 + of_nat (length data)] @ data)
      else if length data \<le> 0xff then Inr ([0x91, of_nat (length data)] @ data)
      else if length data \<le> 0xffff then Inr ((0x92 # le_bytes 2 (length data)) @ data)
      else if length data \<le> 0xffffffff then Inr ((0x93 # le_bytes 4 (length data)) @ data)
      else if length data < 2 ^ 64 then Inr ((0x94 # le_bytes 8 (length data)) @ data)
      else Inl RangeError)"

text \<open>\<open>findInObjectList\<close>: the first index holding the item; \<open>None\<close> is the source's -1.\<close>

fun findInObjectList :: "bytes list \<Rightarrow> bytes \<Rightarrow> nat option" where
  "findInObjectList [] item = None"
| "findInObjectList (x # list) item =
     (if x = item then Some 0 else map_option Suc (findInObjectList list item))"

text \<open>
  The "object deduplication" at the end of \<open>_pack\<close>: the bytes to emit and the object
  list afterwards. An index above \<open>0xffff\<close> leaves the bytes as they are.
\<close>

definition dedup :: "bytes \<Rightarrow> bytes list \<Rightarrow> bytes \<times> bytes list" where
  "dedup packed objectList =
     (case findInObjectList objectList packed of
        Some idx \<Rightarrow>
          if idx < 0x21 then ([0xa0 + of_nat idx], objectList)
          else if idx \<le> 0xff then ([0xc1, of_nat idx], objectList)
          else if idx \<le> 0xffff then (0xc2 # le_bytes 2 idx, objectList)
          else (packed, objectList)
      | None \<Rightarrow>
          if length packed > 1 then (packed, objectList @ [packed]) else (packed, objectList))"

text \<open>
  \<open>_pack\<close>, with the object list passed in and returned; \<open>pack_items\<close> is the loop over
  the items of an array and \<open>pack_entries\<close> the loop over the entries of an object, both
  returning the concatenated parts.
\<close>

fun pack_rec :: "jsvalue \<Rightarrow> bytes list \<Rightarrow> error + bytes \<times> bytes list"
  and pack_items :: "jsvalue list \<Rightarrow> bytes list \<Rightarrow> error + bytes \<times> bytes list"
  and pack_entries :: "(string \<times> jsvalue) list \<Rightarrow> bytes list \<Rightarrow> error + bytes \<times> bytes list"
where
  "pack_rec JNull objectList = Inr (dedup [0x04] objectList)"
| "pack_rec JUndefined objectList = Inr (dedup [0x04] objectList)"
| "pack_rec (JBool b) objectList = Inr (dedup [if b then 0x01 else 0x02] objectList)"
| "pack_rec (JOpackFloat d) objectList = Inr (dedup (0x36 # d) objectList)"
| "pack_rec (JNum (Integer i)) objectList =
     (case packInteger i of Inl e \<Rightarrow> Inl e | Inr packed \<Rightarrow> Inr (dedup packed objectList))"
| "pack_rec (JNum (NonInteger d)) objectList = Inr (dedup (0x36 # d) objectList)"
| "pack_rec (JStr s) objectList =
     (case packString s of Inl e \<Rightarrow> Inl e | Inr packed \<Rightarrow> Inr (dedup packed objectList))"
| "pack_rec (JBuf b) objectList =
     (case packBytes b of Inl e \<Rightarrow> Inl e | Inr packed \<Rightarrow> Inr (dedup packed objectList))"
| "pack_rec (JArr items) objectList =
     (case pack_items items objectList of
        Inl e \<Rightarrow> Inl e
      | Inr (parts, objectList') \<Rightarrow>
          Inr (dedup ([0xd0 + of_nat (min (length items) 0xf)] @ parts
                        @ (if length items \<ge> 0xf then [0x03] else []))
                 objectList'))"
| "pack_rec (JObj entries) objectList =
     (case pack_entries entries objectList of
        Inl e \<Rightarrow> Inl e
      | Inr (parts, objectList') \<Rightarrow>
          Inr (dedup ([0xe0 + of_nat (min (length entries) 0xf)] @ parts
                        @ (if length entries \<ge> 0xf then [0x03] else []))
                 objectList'))"
| "pack_rec JOther objectList = Inl TypeError_UnsupportedType"
| "pack_items [] objectList = Inr ([], objectList)"
| "pack_items (item # items) objectList =
     (case pack_rec item objectList of
        Inl e \<Rightarrow> Inl e
      | Inr (p, objectList') \<Rightarrow>
          (case pack_items items objectList' of
             Inl e \<Rightarrow> Inl e
           | Inr (ps, objectList'') \<Rightarrow> Inr (p @ ps, objectList'')))"
| "pack_entries [] objectList = Inr ([], objectList)"
| "pack_entries ((key, val) # entries) objectList =
     (case pack_rec (JStr key) objectList of
        Inl e \<Rightarrow> Inl e
      | Inr (pk, objectList1) \<Rightarrow>
          (case pack_rec val objectList1 of
             Inl e \<Rightarrow> Inl e
           | Inr (pv, objectList2) \<Rightarrow>
               (case pack_entries entries objectList2 of
                  Inl e \<Rightarrow> Inl e
                | Inr (ps, objectList3) \<Rightarrow> Inr (pk @ pv @ ps, objectList3))))"

definition pack :: "jsvalue \<Rightarrow> error + bytes" where
  "pack data = (case pack_rec data [] of Inl e \<Rightarrow> Inl e | Inr (packed, objectList) \<Rightarrow> Inr packed)"

subsection \<open>Decoder\<close>

text \<open>
  \<open>readUIntLE\<close>: one byte is read by index, which is \<open>undefined\<close> (\<open>None\<close>) past the
  end of the buffer; the two-, four- and eight-byte readers throw a \<open>RangeError\<close> there.
  The eight-byte value is returned exactly; \<open>js_Number\<close> is applied where it is used as
  a value (as a length it only ever bounds a \<open>subarray\<close>).
\<close>

definition readUInt :: "bytes \<Rightarrow> nat \<Rightarrow> nat \<Rightarrow> error + nat option" where
  "readUInt buf offset k =
     (if offset + k \<le> length buf then Inr (Some (le_value (take k (drop offset buf))))
      else Inl RangeError)"

definition readUIntLE :: "bytes \<Rightarrow> nat \<Rightarrow> nat \<Rightarrow> error + nat option" where
  "readUIntLE buf offset numBytes =
     (if numBytes = 1 then Inr (map_option unat (at buf offset))
      else if numBytes = 2 then readUInt buf offset 2
      else if numBytes = 4 then readUInt buf offset 4
      else if numBytes = 8 then readUInt buf offset 8
      else Inl (Error_UnsupportedIntegerSize numBytes))"

text \<open>
  \<open>objectList.includes(value)\<close> compares numbers, strings, booleans, \<open>null\<close> and
  \<open>undefined\<close> by value and objects by identity; a buffer the decoder has just made is
  a new object, so it is never found.
\<close>

fun by_identity :: "jsvalue \<Rightarrow> bool" where
  "by_identity (JBuf b) = True"
| "by_identity (JArr xs) = True"
| "by_identity (JObj es) = True"
| "by_identity (JOpackFloat d) = True"
| "by_identity JOther = True"
| "by_identity _ = False"

definition includes_value :: "jsvalue list \<Rightarrow> jsvalue \<Rightarrow> bool" where
  "includes_value objectList v = (\<not> by_identity v \<and> v \<in> set objectList)"

text \<open>\<open>objectList[i]\<close>: \<open>undefined\<close> outside the list, and for an index that is
  \<open>undefined\<close> itself.\<close>

definition objectList_at :: "jsvalue list \<Rightarrow> nat option \<Rightarrow> jsvalue" where
  "objectList_at objectList i =
     (case i of
        None \<Rightarrow> JUndefined
      | Some k \<Rightarrow> if k < length objectList then objectList ! k else JUndefined)"

text \<open>
  The decoder's result: \<open>None\<close> when the fuel runs out before the call returns,
  otherwise the exception thrown or the value, the remaining bytes and the object list
  after the call.
\<close>

type_synonym 'a unpacked = "(error + 'a \<times> bytes \<times> jsvalue list) option"

text \<open>The end of \<open>_unpack\<close>: the value joins the object list unless it is there.\<close>

definition finish :: "jsvalue \<Rightarrow> bytes \<Rightarrow> bool \<Rightarrow> jsvalue list \<Rightarrow> jsvalue unpacked" where
  "finish v remaining addToObjectList objectList =
     Some (Inr (v, remaining,
       if addToObjectList \<and> \<not> includes_value objectList v then objectList @ [v]
       else objectList))"

text \<open>
  A string or byte string with a length field. With the length \<open>undefined\<close> the
  offsets are \<open>NaN\<close>: the value is the empty \<open>subarray(_, NaN)\<close> and the remaining
  bytes are \<open>subarray(NaN)\<close>, the whole input.
\<close>

definition sized ::
  "(bytes \<Rightarrow> jsvalue) \<Rightarrow> bytes \<Rightarrow> nat \<Rightarrow> jsvalue list \<Rightarrow> jsvalue unpacked" where
  "sized mk data numBytes objectList =
     (case readUIntLE data 1 numBytes of
        Inl e \<Rightarrow> Some (Inl e)
      | Inr None \<Rightarrow> finish (mk []) data True objectList
      | Inr (Some len) \<Rightarrow>
          finish (mk (subarray data (1 + numBytes) (1 + numBytes + len)))
            (subarray_from data (1 + numBytes + len)) True objectList)"

text \<open>
  The branches of \<open>_unpack\<close> that decode a value without a recursive call, in the
  source's order: those before the array branch, which fall through to \<open>otherwise\<close>
  (the rest of the chain), and the back-reference branches after the map branch, which
  end in the \<open>throw\<close>.
\<close>

definition unpack_leaf ::
  "runtime \<Rightarrow> u8 \<Rightarrow> bytes \<Rightarrow> jsvalue list \<Rightarrow> jsvalue unpacked \<Rightarrow> jsvalue unpacked" where
  "unpack_leaf rt byte0 data objectList otherwise =
     (if byte0 = 0x01 then finish (JBool True) (subarray_from data 1) False objectList
      else if byte0 = 0x02 then finish (JBool False) (subarray_from data 1) False objectList
      else if byte0 = 0x04 then finish JNull (subarray_from data 1) False objectList
      else if byte0 = 0x05 then
        finish (JBuf (subarray data 1 17)) (subarray_from data 17) True objectList
      else if byte0 = 0x06 then
        (case readUInt data 1 8 of
           Inl e \<Rightarrow> Some (Inl e)
         | Inr v \<Rightarrow>
             finish (JNum (js_Number rt (the v))) (subarray_from data 9) True objectList)
      else if byte0 \<ge> 0x08 \<and> byte0 \<le> 0x2f then
        finish (JNum (Integer (uint byte0 - 8))) (subarray_from data 1) False objectList
      else if byte0 = 0x35 then
        (if 5 \<le> length data
         then finish (JNum (rt_readFloatLE rt (subarray data 1 5))) (subarray_from data 5)
                True objectList
         else Some (Inl RangeError))
      else if byte0 = 0x36 then
        (if 9 \<le> length data
         then finish (JNum (rt_readDoubleLE rt (subarray data 1 9))) (subarray_from data 9)
                True objectList
         else Some (Inl RangeError))
      else if byte0 AND 0xf0 = 0x30 then
        (let numBytes = 2 ^ unat (byte0 AND 0xf) in
         case readUIntLE data 1 numBytes of
           Inl e \<Rightarrow> Some (Inl e)
         | Inr None \<Rightarrow> finish JUndefined (subarray_from data (1 + numBytes)) True objectList
         | Inr (Some v) \<Rightarrow>
             finish (JNum (js_Number rt v)) (subarray_from data (1 + numBytes)) True
               objectList)
      else if byte0 \<ge> 0x40 \<and> byte0 \<le> 0x60 then
        (let len = unat byte0 - 0x40 in
         finish (JStr (utf8_toString (subarray data 1 (1 + len))))
           (subarray_from data (1 + len)) True objectList)
      else if byte0 > 0x60 \<and> byte0 \<le> 0x64 then
        sized (\<lambda>b. JStr (utf8_toString b)) data (unat (byte0 AND 0xf)) objectList
      else if byte0 \<ge> 0x70 \<and> byte0 \<le> 0x90 then
        (let len = unat byte0 - 0x70 in
         finish (JBuf (subarray data 1 (1 + len))) (subarray_from data (1 + len)) True
           objectList)
      else if byte0 \<ge> 0x91 \<and> byte0 \<le> 0x94 then
        sized JBuf data (2 ^ (unat (byte0 AND 0xf) - 1)) objectList
      else otherwise)"

definition unpack_ref :: "u8 \<Rightarrow> bytes \<Rightarrow> jsvalue list \<Rightarrow> jsvalue unpacked" where
  "unpack_ref byte0 data objectList =
     (if byte0 \<ge> 0xa0 \<and> byte0 \<le> 0xc0 then
        finish (objectList_at objectList (Some (unat byte0 - 0xa0))) (subarray_from data 1)
          False objectList
      else if byte0 \<ge> 0xc1 \<and> byte0 \<le> 0xc4 then
        (let len = unat byte0 - 0xc0 in
         case readUIntLE data 1 len of
           Inl e \<Rightarrow> Some (Inl e)
         | Inr uid \<Rightarrow>
             finish (objectList_at objectList uid) (subarray_from data (1 + len)) False
               objectList)
      else Some (Inl TypeError_UnknownOpackType))"

text \<open>
  \<open>output[key] = v\<close> on the plain object the map branch builds. The own properties of
  an object are enumerated with the array indices first (the canonical decimal strings of
  the integers below \<open>2 ^ 32 - 1\<close>), in ascending order, and the other keys after
  them in the order they were added; assigning to a key the object has replaces the value
  where it is. The key \<open>__proto__\<close> is the accessor inherited from \<open>Object.prototype\<close>:
  the assignment adds no property (it makes an object or \<open>null\<close> the prototype of
  \<open>output\<close>, which is not among the entries of the object).
\<close>

definition decimal :: "string \<Rightarrow> nat" where
  "decimal s = foldl (\<lambda>a c. 10 * a + (of_char c - 48)) 0 s"

definition array_index :: "string \<Rightarrow> nat option" where
  "array_index s =
     (if s \<noteq> [] \<and> list_all (\<lambda>c. 48 \<le> (of_char c :: nat) \<and> (of_char c :: nat) \<le> 57) s
         \<and> (s = ''0'' \<or> hd s \<noteq> CHR ''0'') \<and> decimal s < 2 ^ 32 - 1
      then Some (decimal s) else None)"

fun insert_index ::
  "nat \<Rightarrow> string \<Rightarrow> jsvalue \<Rightarrow> (string \<times> jsvalue) list \<Rightarrow> (string \<times> jsvalue) list" where
  "insert_index i key v [] = [(key, v)]"
| "insert_index i key v ((key', v') # entries) =
     (case array_index key' of
        None \<Rightarrow> (key, v) # (key', v') # entries
      | Some j \<Rightarrow>
          if j < i then (key', v') # insert_index i key v entries
          else (key, v) # (key', v') # entries)"

definition set_property ::
  "(string \<times> jsvalue) list \<Rightarrow> string \<Rightarrow> jsvalue \<Rightarrow> (string \<times> jsvalue) list" where
  "set_property output key v =
     (if key = ''__proto__'' then output
      else if map_of output key \<noteq> None then AList.update key v output
      else
        (case array_index key of
           None \<Rightarrow> output @ [(key, v)]
         | Some i \<Rightarrow> insert_index i key v output))"

text \<open>
  \<open>_unpack\<close>, with the object list passed in and returned: the leaf branches, then the
  array branch, the map branch and the back-references. Every call and every pass of a
  loop takes one unit of fuel. \<open>unpack_for\<close> and \<open>unpack_while\<close> are the counted and
  the sentinel-terminated loop of an array, \<open>unpack_for_map\<close> and \<open>unpack_while_map\<close>
  those of a map. An empty input has no first byte: \<open>byte0\<close> is \<open>undefined\<close>, no
  branch matches, and in the last one the message of the \<open>throw\<close> calls
  \<open>byte0.toString\<close>, which raises the \<open>TypeError\<close> of a property read on
  \<open>undefined\<close> before the error of the unknown type is made.
\<close>

function (sequential) unpack_rec :: "runtime \<Rightarrow> nat \<Rightarrow> bytes \<Rightarrow> jsvalue list \<Rightarrow> jsvalue unpacked"
  and unpack_for ::
    "runtime \<Rightarrow> nat \<Rightarrow> nat \<Rightarrow> bytes \<Rightarrow> jsvalue list \<Rightarrow> jsvalue list
       \<Rightarrow> (jsvalue list) unpacked"
  and unpack_while ::
    "runtime \<Rightarrow> nat \<Rightarrow> bytes \<Rightarrow> jsvalue list \<Rightarrow> jsvalue list \<Rightarrow> (jsvalue list) unpacked"
  and unpack_for_map ::
    "runtime \<Rightarrow> nat \<Rightarrow> nat \<Rightarrow> bytes \<Rightarrow> jsvalue list \<Rightarrow> (string \<times> jsvalue) list
       \<Rightarrow> ((string \<times> jsvalue) list) unpacked"
  and unpack_while_map ::
    "runtime \<Rightarrow> nat \<Rightarrow> bytes \<Rightarrow> jsvalue list \<Rightarrow> (string \<times> jsvalue) list
       \<Rightarrow> ((string \<times> jsvalue) list) unpacked"
where
  "unpack_rec rt 0 data objectList = None"
| "unpack_rec rt (Suc n) data objectList =
     (case at data 0 of
        None \<Rightarrow> Some (Inl TypeError_Property)
      | Some byte0 \<Rightarrow>
          unpack_leaf rt byte0 data objectList
            (if byte0 AND 0xf0 = 0xd0 then
               (case (if unat (byte0 AND 0xf) = 0xf
                      then unpack_while rt n (subarray_from data 1) objectList []
                      else unpack_for rt n (unat (byte0 AND 0xf)) (subarray_from data 1)
                             objectList []) of
                  None \<Rightarrow> None
                | Some (Inl e) \<Rightarrow> Some (Inl e)
                | Some (Inr (output, ptr, objectList')) \<Rightarrow>
                    finish (JArr output) ptr False objectList')
             else if byte0 AND 0xe0 = 0xe0 then
               (case (if unat (byte0 AND 0xf) = 0xf
                      then unpack_while_map rt n (subarray_from data 1) objectList []
                      else unpack_for_map rt n (unat (byte0 AND 0xf)) (subarray_from data 1)
                             objectList []) of
                  None \<Rightarrow> None
                | Some (Inl e) \<Rightarrow> Some (Inl e)
                | Some (Inr (output, ptr, objectList')) \<Rightarrow>
                    finish (JObj output) ptr False objectList')
             else unpack_ref byte0 data objectList))"
| "unpack_for rt 0 count ptr objectList output = None"
| "unpack_for rt (Suc n) count ptr objectList output =
     (if count = 0 then Some (Inr (output, ptr, objectList))
      else
        (case unpack_rec rt n ptr objectList of
           None \<Rightarrow> None
         | Some (Inl e) \<Rightarrow> Some (Inl e)
         | Some (Inr (v, rest, objectList')) \<Rightarrow>
             unpack_for rt n (count - 1) rest objectList' (output @ [v])))"
| "unpack_while rt 0 ptr objectList output = None"
| "unpack_while rt (Suc n) ptr objectList output =
     (if at ptr 0 = Some 0x03 then Some (Inr (output, subarray_from ptr 1, objectList))
      else
        (case unpack_rec rt n ptr objectList of
           None \<Rightarrow> None
         | Some (Inl e) \<Rightarrow> Some (Inl e)
         | Some (Inr (v, rest, objectList')) \<Rightarrow>
             unpack_while rt n rest objectList' (output @ [v])))"
| "unpack_for_map rt 0 count ptr objectList output = None"
| "unpack_for_map rt (Suc n) count ptr objectList output =
     (if count = 0 then Some (Inr (output, ptr, objectList))
      else
        (case unpack_rec rt n ptr objectList of
           None \<Rightarrow> None
         | Some (Inl e) \<Rightarrow> Some (Inl e)
         | Some (Inr (k, rest1, objectList1)) \<Rightarrow>
             (case unpack_rec rt n rest1 objectList1 of
                None \<Rightarrow> None
              | Some (Inl e) \<Rightarrow> Some (Inl e)
              | Some (Inr (v, rest2, objectList2)) \<Rightarrow>
                  unpack_for_map rt n (count - 1) rest2 objectList2
                    (set_property output (js_String rt k) v))))"
| "unpack_while_map rt 0 ptr objectList output = None"
| "unpack_while_map rt (Suc n) ptr objectList output =
     (if at ptr 0 = Some 0x03 then Some (Inr (output, subarray_from ptr 1, objectList))
      else
        (case unpack_rec rt n ptr objectList of
           None \<Rightarrow> None
         | Some (Inl e) \<Rightarrow> Some (Inl e)
         | Some (Inr (k, rest1, objectList1)) \<Rightarrow>
             (case unpack_rec rt n rest1 objectList1 of
                None \<Rightarrow> None
              | Some (Inl e) \<Rightarrow> Some (Inl e)
              | Some (Inr (v, rest2, objectList2)) \<Rightarrow>
                  unpack_while_map rt n rest2 objectList2
                    (set_property output (js_String rt k) v))))"
  by pat_completeness auto
termination
  by (relation "measure (\<lambda>x. case x of
      Inl (Inl (rt, n, r)) \<Rightarrow> n
    | Inl (Inr (rt, n, r)) \<Rightarrow> n
    | Inr (Inl (rt, n, r)) \<Rightarrow> n
    | Inr (Inr (Inl (rt, n, r))) \<Rightarrow> n
    | Inr (Inr (Inr (rt, n, r))) \<Rightarrow> n)") auto

text \<open>\<open>unpack\<close>: the value and the remaining bytes of \<open>_unpack\<close> on an empty list.\<close>

definition unpack :: "runtime \<Rightarrow> nat \<Rightarrow> bytes \<Rightarrow> (error + jsvalue \<times> bytes) option" where
  "unpack rt fuel data =
     (case unpack_rec rt fuel data [] of
        None \<Rightarrow> None
      | Some (Inl e) \<Rightarrow> Some (Inl e)
      | Some (Inr (v, remaining, objectList)) \<Rightarrow> Some (Inr (v, remaining)))"

section \<open>Message dispatch (companion/protocol)\<close>

definition PS_Start :: nat where "PS_Start = 3"
definition PS_Next :: nat where "PS_Next = 4"
definition PV_Start :: nat where "PV_Start = 5"
definition PV_Next :: nat where "PV_Next = 6"
definition U_OPACK :: nat where "U_OPACK = 7"
definition E_OPACK :: nat where "E_OPACK = 8"
definition P_OPACK :: nat where "P_OPACK = 9"

definition MessageType_Event :: int where "MessageType_Event = 1"
definition MessageType_Request :: int where "MessageType_Request = 2"
definition MessageType_Response :: int where "MessageType_Response = 3"

text \<open>
  Every call of \<open>exchangeAuth\<close> or \<open>exchangeOpack\<close> creates one promise and one timer
  and stores \<open>{resolve, reject, timer}\<close> in a table. The calls are numbered as they are
  made; an entry of a table is the number of the call whose promise and timer it holds.
  A timer that is set and has neither fired nor been cleared is in \<open>timers\<close>, with what
  its callback refers to: the table key it deletes and the frame type or transaction id
  of its message. Every call of a promise's \<open>resolve\<close> or \<open>reject\<close> is recorded in
  \<open>settled\<close>, in order; a promise that throws in its executor counts as a call of
  \<open>reject\<close>. The first call on a promise decides it.
\<close>

type_synonym PendingRequest = nat

datatype timer = AuthTimer nat nat | OpackTimer nat

datatype completion = Resolve jsvalue | Reject error

text \<open>
  The fields of \<open>CompanionProtocol\<close>. Both tables are JavaScript \<open>Map\<close>s: association
  lists in insertion order, \<open>set\<close> being \<open>AList.update\<close> and \<open>delete\<close> being
  \<open>AList.delete\<close>. The transaction counter \<open>xid\<close> is a JavaScript number holding a
  non-negative integer, a natural here; \<open>increment\<close> below is \<open>xid++\<close>. Event
  listeners and the \<open>onConnectionLost\<close> handler are callbacks of the caller; the
  embedding does not follow them.
\<close>

record CompanionProtocol =
  connection :: CompanionConnection
  xid :: nat
  pendingRequests :: "(nat \<times> PendingRequest) list"
  pendingAuth :: "(nat \<times> PendingRequest) list"
  timers :: "(nat \<times> timer) list"
  settled :: "(nat \<times> completion) list"
  exchanges :: nat

text \<open>
  \<open>xid++\<close> on a number. The counter starts below \<open>2 ^ 16\<close> and moves only by
  \<open>++\<close>: below \<open>2 ^ 53\<close> the addition is exact, and at \<open>2 ^ 53\<close> the double nearest
  to the sum is \<open>2 ^ 53\<close> again, so the counter stays there and takes no larger value.
  Nothing reduces it modulo \<open>2 ^ 32\<close>.
\<close>

definition increment :: "nat \<Rightarrow> nat" where
  "increment n = (if n < 2 ^ 53 then n + 1 else n)"

definition new_CompanionProtocol :: "CompanionConnection \<Rightarrow> nat \<Rightarrow> CompanionProtocol" where
  "new_CompanionProtocol conn start =
     \<lparr>connection = conn, xid = start, pendingRequests = [], pendingAuth = [], timers = [],
      settled = [], exchanges = 0\<rparr>"

text \<open>The state of a promise: undecided, or decided by the first call made on it.\<close>

definition outcome :: "CompanionProtocol \<Rightarrow> nat \<Rightarrow> completion option" where
  "outcome s p = map_of (settled s) p"

definition clearTimeout :: "nat \<Rightarrow> CompanionProtocol \<Rightarrow> CompanionProtocol" where
  "clearTimeout p s = s\<lparr>timers := AList.delete p (timers s)\<rparr>"

definition resolve :: "nat \<Rightarrow> jsvalue \<Rightarrow> CompanionProtocol \<Rightarrow> CompanionProtocol" where
  "resolve p v s = s\<lparr>settled := settled s @ [(p, Resolve v)]\<rparr>"

definition reject :: "nat \<Rightarrow> error \<Rightarrow> CompanionProtocol \<Rightarrow> CompanionProtocol" where
  "reject p e s = s\<lparr>settled := settled s @ [(p, Reject e)]\<rparr>"

text \<open>\<open>connectionLost\<close>: the two loops over the tables, each followed by \<open>clear()\<close>.\<close>

fun reject_all :: "(nat \<times> PendingRequest) list \<Rightarrow> CompanionProtocol \<Rightarrow> CompanionProtocol" where
  "reject_all [] s = s"
| "reject_all ((key, pending) # entries) s =
     reject_all entries (reject pending Error_ConnectionLost (clearTimeout pending s))"

definition connectionLost :: "CompanionProtocol \<Rightarrow> CompanionProtocol" where
  "connectionLost s =
     (let s1 = (reject_all (pendingRequests s) s)\<lparr>pendingRequests := []\<rparr>
      in (reject_all (pendingAuth s1) s1)\<lparr>pendingAuth := []\<rparr>)"

text \<open>
  The handlers of incoming frames return \<open>None\<close> when the decoder does not return,
  the exception when one is thrown (nothing has been changed by then), and the state
  after the handler otherwise.
\<close>

definition handleAuthFrame ::
  "runtime \<Rightarrow> nat \<Rightarrow> nat \<Rightarrow> bytes \<Rightarrow> CompanionProtocol \<Rightarrow> (error + CompanionProtocol) option" where
  "handleAuthFrame rt fuel frameType payload s =
     (if length payload = 0 then Some (Inr s)
      else
        (case unpack rt fuel payload of
           None \<Rightarrow> None
         | Some (Inl e) \<Rightarrow> Some (Inl e)
         | Some (Inr (data, remaining)) \<Rightarrow>
             (case map_of (pendingAuth s) frameType of
                None \<Rightarrow> Some (Inr s)
              | Some pending \<Rightarrow>
                  Some (Inr (resolve pending data
                    ((clearTimeout pending s)
                       \<lparr>pendingAuth := AList.delete frameType (pendingAuth s)\<rparr>))))))"

text \<open>\<open>data.key\<close>: a \<open>TypeError\<close> on \<open>null\<close> and \<open>undefined\<close>, the entry of an
  object, and \<open>undefined\<close> for a missing entry and on the other values (none of the keys
  read here is a property of a number, string, boolean, buffer or array).\<close>

definition property :: "jsvalue \<Rightarrow> string \<Rightarrow> error + jsvalue" where
  "property data key =
     (case data of
        JNull \<Rightarrow> Inl TypeError_Property
      | JUndefined \<Rightarrow> Inl TypeError_Property
      | JObj entries \<Rightarrow> Inr (case map_of entries key of None \<Rightarrow> JUndefined | Some v \<Rightarrow> v)
      | _ \<Rightarrow> Inr JUndefined)"

text \<open>The key of \<open>pendingRequests\<close> a value is equal to, if any: the keys are the
  numbers \<open>exchangeOpack\<close> stored, so only a non-negative integer is one.\<close>

definition request_key :: "jsvalue \<Rightarrow> nat option" where
  "request_key x =
     (case x of
        JNum (Integer i) \<Rightarrow> if 0 \<le> i then Some (nat i) else None
      | _ \<Rightarrow> None)"

text \<open>\<open>handleOpack\<close>. What the listeners of an event do is not followed here: an
  event leaves the dispatcher as it is.\<close>

definition handleOpack :: "nat \<Rightarrow> jsvalue \<Rightarrow> CompanionProtocol \<Rightarrow> error + CompanionProtocol" where
  "handleOpack frameType data s =
     (case property data ''_t'' of
        Inl e \<Rightarrow> Inl e
      | Inr messageType \<Rightarrow>
          if messageType = JNum (Integer MessageType_Event) then Inr s
          else if messageType = JNum (Integer MessageType_Response) then
            (case property data ''_x'' of
               Inl e \<Rightarrow> Inl e
             | Inr x \<Rightarrow>
                 (case request_key x of
                    None \<Rightarrow> Inr s
                  | Some k \<Rightarrow>
                      (case map_of (pendingRequests s) k of
                         None \<Rightarrow> Inr s
                       | Some pending \<Rightarrow>
                           Inr (resolve pending data
                             ((clearTimeout pending s)
                                \<lparr>pendingRequests := AList.delete k (pendingRequests s)\<rparr>)))))
          else Inr s)"

definition frameReceived ::
  "runtime \<Rightarrow> nat \<Rightarrow> nat \<Rightarrow> bytes \<Rightarrow> CompanionProtocol \<Rightarrow> (error + CompanionProtocol) option" where
  "frameReceived rt fuel frameType payload s =
     (if frameType \<ge> PS_Start \<and> frameType \<le> PV_Next then
        handleAuthFrame rt fuel frameType payload s
      else if frameType = E_OPACK \<or> frameType = U_OPACK \<or> frameType = P_OPACK then
        (if length payload = 0 then Some (Inr s)
         else
           (case unpack rt fuel payload of
              None \<Rightarrow> None
            | Some (Inl e) \<Rightarrow> Some (Inl e)
            | Some (Inr (v, remaining)) \<Rightarrow> Some (handleOpack frameType v s)))
      else Some (Inr s))"

text \<open>
  The body of the promise both exchanges build: \<open>connection.send(frameType,
  opack.pack(data))\<close>, where an exception of \<open>pack\<close> or \<open>send\<close> rejects the promise.
\<close>

definition send_packed ::
  "aead \<Rightarrow> nat \<Rightarrow> nat \<Rightarrow> jsvalue \<Rightarrow> CompanionProtocol \<Rightarrow> CompanionProtocol" where
  "send_packed lib p frameType data s =
     (case pack data of
        Inl e \<Rightarrow> reject p e s
      | Inr packed \<Rightarrow>
          (case send lib frameType packed (connection s) of
             (Inl e, conn) \<Rightarrow> reject p e (s\<lparr>connection := conn\<rparr>)
           | (Inr u, conn) \<Rightarrow> s\<lparr>connection := conn\<rparr>))"

definition responseType :: "nat \<Rightarrow> nat" where
  "responseType frameType =
     (if frameType = PS_Start then PS_Next
      else if frameType = PV_Start then PV_Next
      else frameType)"

text \<open>
  \<open>exchangeAuth\<close> and \<open>exchangeOpack\<close>, up to the return of the promise: the timer is
  set, the entry stored and the frame sent. When the timer fires is not decided here
  (the \<open>timeout\<close> argument is left out); \<open>timerFired\<close> is its callback. In
  \<open>exchangeOpack\<close> the assignment \<open>data._x = xid\<close> replaces the entry \<open>_x\<close> of the
  caller's object where it is, or adds it after the others.
\<close>

definition exchangeAuth :: "aead \<Rightarrow> nat \<Rightarrow> jsvalue \<Rightarrow> CompanionProtocol \<Rightarrow> CompanionProtocol" where
  "exchangeAuth lib frameType data s =
     (let p = exchanges s;
          s1 = s\<lparr>exchanges := p + 1,
                 timers := AList.update p (AuthTimer (responseType frameType) frameType) (timers s),
                 pendingAuth := AList.update (responseType frameType) p (pendingAuth s)\<rparr>
      in send_packed lib p frameType data s1)"

definition exchangeOpack ::
  "aead \<Rightarrow> (string \<times> jsvalue) list \<Rightarrow> nat \<Rightarrow> CompanionProtocol \<Rightarrow> CompanionProtocol" where
  "exchangeOpack lib data frameType s =
     (let x = xid s;
          data' = AList.update ''_x'' (JNum (Integer (int x))) data;
          p = exchanges s;
          s1 = s\<lparr>xid := increment (xid s),
                 exchanges := p + 1,
                 timers := AList.update p (OpackTimer x) (timers s),
                 pendingRequests := AList.update x p (pendingRequests s)\<rparr>
      in send_packed lib p frameType (JObj data') s1)"

definition sendCommand :: "aead \<Rightarrow> string \<Rightarrow> jsvalue \<Rightarrow> CompanionProtocol \<Rightarrow> CompanionProtocol" where
  "sendCommand lib identifier content s =
     exchangeOpack lib
       [(''_i'', JStr identifier), (''_t'', JNum (Integer MessageType_Request)), (''_c'', content)]
       E_OPACK s"

definition sendEvent ::
  "aead \<Rightarrow> string \<Rightarrow> jsvalue \<Rightarrow> CompanionProtocol \<Rightarrow> (error + unit) \<times> CompanionProtocol" where
  "sendEvent lib identifier content s =
     (let data = JObj [(''_i'', JStr identifier), (''_t'', JNum (Integer MessageType_Event)),
                       (''_c'', content), (''_x'', JNum (Integer (int (xid s))))];
          s1 = s\<lparr>xid := increment (xid s)\<rparr>
      in case pack data of
           Inl e \<Rightarrow> (Inl e, s1)
         | Inr packed \<Rightarrow>
             (case send lib E_OPACK packed (connection s1) of
                (r, conn) \<Rightarrow> (r, s1\<lparr>connection := conn\<rparr>)))"

text \<open>The callback of a timer that is still set, by the number of its exchange.\<close>

definition timerFired :: "nat \<Rightarrow> CompanionProtocol \<Rightarrow> CompanionProtocol" where
  "timerFired p s =
     (case map_of (timers s) p of
        None \<Rightarrow> s
      | Some (AuthTimer rType frameType) \<Rightarrow>
          reject p (Error_AuthTimeout frameType)
            (s\<lparr>timers := AList.delete p (timers s),
               pendingAuth := AList.delete rType (pendingAuth s)\<rparr>)
      | Some (OpackTimer x) \<Rightarrow>
          reject p (Error_OpackTimeout x)
            (s\<lparr>timers := AList.delete p (timers s),
               pendingRequests := AList.delete x (pendingRequests s)\<rparr>))"

text \<open>
  What can happen to a dispatcher, one event at a time: a frame delivered to it by the
  connection (\<open>frameReceived\<close>, with the payload as the connection hands it over), the
  loss of the connection, a timer firing, a call of one of the sending operations, and
  the connection being opened (\<open>connect\<close> returns at once when it is connected), closed
  by the caller, closed by the peer (the socket's \<open>close\<close> handler), given keys, or
  decrypting an incoming frame, which advances the inbound counter of its cipher whether
  or not the frame is delivered afterwards. \<open>run\<close> is a sequence of events; it is
  \<open>None\<close> when a decoder does not return.
\<close>

datatype event =
    FrameReceived nat bytes
  | ConnectionLost
  | TimerFired nat
  | ExchangeAuth nat jsvalue
  | ExchangeOpack "(string \<times> jsvalue) list" nat
  | SendCommand string jsvalue
  | SendEvent string jsvalue
  | Connected
  | Closed
  | SocketClosed
  | EnableEncryption bytes bytes
  | Decrypted

fun step :: "runtime \<Rightarrow> nat \<Rightarrow> aead \<Rightarrow> event \<Rightarrow> CompanionProtocol \<Rightarrow> CompanionProtocol option" where
  "step rt fuel lib (FrameReceived frameType payload) s =
     (case frameReceived rt fuel frameType payload s of
        None \<Rightarrow> None
      | Some (Inl e) \<Rightarrow> Some s
      | Some (Inr s') \<Rightarrow> Some s')"
| "step rt fuel lib ConnectionLost s = Some (connectionLost s)"
| "step rt fuel lib (TimerFired p) s = Some (timerFired p s)"
| "step rt fuel lib (ExchangeAuth frameType data) s = Some (exchangeAuth lib frameType data s)"
| "step rt fuel lib (ExchangeOpack data frameType) s = Some (exchangeOpack lib data frameType s)"
| "step rt fuel lib (SendCommand identifier content) s = Some (sendCommand lib identifier content s)"
| "step rt fuel lib (SendEvent identifier content) s = Some (snd (sendEvent lib identifier content s))"
| "step rt fuel lib Connected s =
     Some (if connected (connection s) then s
           else s\<lparr>connection := (connection s)\<lparr>socket := Some [], connected := True\<rparr>\<rparr>)"
| "step rt fuel lib Closed s = Some (s\<lparr>connection := close (connection s)\<rparr>)"
| "step rt fuel lib SocketClosed s =
     Some (connectionLost (s\<lparr>connection := (connection s)\<lparr>connected := False\<rparr>\<rparr>))"
| "step rt fuel lib (EnableEncryption outputKey inputKey) s =
     Some (s\<lparr>connection := enableEncryption outputKey inputKey (connection s)\<rparr>)"
| "step rt fuel lib Decrypted s =
     Some (s\<lparr>connection := (connection s)
       \<lparr>chacha := map_option (\<lambda>c. c\<lparr>inCounter := inCounter c + 1\<rparr>) (chacha (connection s))\<rparr>\<rparr>)"

fun run :: "runtime \<Rightarrow> nat \<Rightarrow> aead \<Rightarrow> event list \<Rightarrow> CompanionProtocol \<Rightarrow> CompanionProtocol option" where
  "run rt fuel lib [] s = Some s"
| "run rt fuel lib (e # es) s =
     (case step rt fuel lib e s of None \<Rightarrow> None | Some s' \<Rightarrow> run rt fuel lib es s')"

text \<open>
  The calls of \<open>resolve\<close> and \<open>reject\<close> recorded for one promise, in order; and what
  holds of the tables in every state the dispatcher reaches: a table has one entry
  per key, no promise is in two entries, and every entry, timer and recorded call
  belongs to an exchange that has been made.
\<close>

definition calls_on :: "nat \<Rightarrow> (nat \<times> completion) list \<Rightarrow> completion list" where
  "calls_on p cs = map snd (filter (\<lambda>(q, c). q = p) cs)"

definition tables_ok :: "CompanionProtocol \<Rightarrow> bool" where
  "tables_ok s =
     (distinct (map fst (pendingRequests s)) \<and> distinct (map fst (pendingAuth s))
      \<and> distinct (map snd (pendingRequests s @ pendingAuth s))
      \<and> list_all (\<lambda>(k, p). p < exchanges s) (pendingRequests s @ pendingAuth s))"

text \<open>
  Two situations of one exchange \<open>p\<close> of \<open>exchangeAuth\<close>, used to follow it through a
  run. It is \<open>attached\<close> while the only entry that can hold it is the one under its
  reply type, and its timer is set for as long as no call has been made on its promise.
  It is \<open>detached\<close> once no table holds it: then either its timer is still set and no
  call has been made on its promise, or its timer has fired and the one call made is the
  timer's rejection.
\<close>

definition attached :: "nat \<Rightarrow> nat \<Rightarrow> nat \<Rightarrow> CompanionProtocol \<Rightarrow> bool" where
  "attached p rType ft s =
     (p < exchanges s \<and> distinct (map fst (pendingAuth s))
      \<and> p \<notin> snd ` set (pendingRequests s)
      \<and> (\<forall>k. (k, p) \<in> set (pendingAuth s) \<longrightarrow> k = rType)
      \<and> (calls_on p (settled s) = [] \<longrightarrow> map_of (timers s) p = Some (AuthTimer rType ft)))"

definition detached :: "nat \<Rightarrow> nat \<Rightarrow> nat \<Rightarrow> bool \<Rightarrow> CompanionProtocol \<Rightarrow> bool" where
  "detached p rType ft fired s =
     (p < exchanges s \<and> p \<notin> snd ` set (pendingRequests s) \<and> p \<notin> snd ` set (pendingAuth s)
      \<and> (if fired
          then calls_on p (settled s) = [Reject (Error_AuthTimeout ft)] \<and> map_of (timers s) p = None
          else calls_on p (settled s) = [] \<and> map_of (timers s) p = Some (AuthTimer rType ft)))"

section \<open>TLV8: reading and writing records\<close>

declare readTlv_loop.simps [simp del]
declare spec_chunks.simps [simp del]

text \<open>
  The reader's loop only looks at the buffer from \<open>pos\<close> on, so the state after a
  prefix is the state of a fresh loop over the rest with the same accumulated map.
\<close>

lemma readTlv_loop_shift:
  "readTlv_loop (pre @ rest) (length pre + pos) result = readTlv_loop rest pos result"
proof (induction rest pos result rule: readTlv_loop.induct)
  case (1 data pos result)
  show ?case
  proof (cases "pos < length data")
    case False
    then show ?thesis
      by (simp add: readTlv_loop.simps [of "pre @ data"] readTlv_loop.simps [of data])
  next
    case True
    note pos = this
    show ?thesis
    proof (cases "at data (pos + 1)")
      case None
      then have "at (pre @ data) (length pre + pos + 1) = None"
        by (simp add: at_def split: if_splits)
      with None pos show ?thesis
        by (simp add: readTlv_loop.simps [of "pre @ data"] readTlv_loop.simps [of data]
            nth_append)
    next
      case (Some l)
      then have a: "at (pre @ data) (length pre + pos + 1) = Some l"
        by (auto simp: at_def nth_append split: if_splits)
      have s: "subarray (pre @ data) (length pre + pos + 2) (length pre + pos + 2 + unat l)
          = subarray data (pos + 2) (pos + 2 + unat l)"
        by (simp add: subarray_def)
      have ih: "readTlv_loop (pre @ data) (length pre + (pos + 2 + unat l))
            (readTlv_store result (unat (data ! pos)) (subarray data (pos + 2) (pos + 2 + unat l)))
          = readTlv_loop data (pos + 2 + unat l)
            (readTlv_store result (unat (data ! pos)) (subarray data (pos + 2) (pos + 2 + unat l)))"
        using "1.IH" [OF pos refl Some refl refl] .
      show ?thesis
        using pos Some a s ih
        by (simp add: readTlv_loop.simps [of "pre @ data" "length pre + pos"]
            readTlv_loop.simps [of data pos] nth_append add.assoc Let_def)
    qed
  qed
qed

lemma readTlv_loop_Nil: "readTlv_loop [] 0 r = r"
  by (simp add: readTlv_loop.simps)

lemma readTlv_loop_past: "length data \<le> pos \<Longrightarrow> readTlv_loop data pos r = r"
  by (simp add: readTlv_loop.simps)

text \<open>One record off the front: the value is what is there, up to the declared length.\<close>

lemma readTlv_loop_Cons:
  "readTlv_loop (t # l # rest) 0 r =
     readTlv_loop (drop (unat l) rest) 0 (readTlv_store r (unat t) (take (unat l) rest))"
proof -
  let ?r = "readTlv_store r (unat t) (take (unat l) rest)"
  have step: "readTlv_loop (t # l # rest) 0 r = readTlv_loop (t # l # rest) (2 + unat l) ?r"
    by (simp add: readTlv_loop.simps [of _ 0] at_def subarray_def Let_def)
  show ?thesis
  proof (cases "unat l \<le> length rest")
    case True
    have "readTlv_loop ((t # l # take (unat l) rest) @ drop (unat l) rest)
            (length (t # l # take (unat l) rest) + 0) ?r
          = readTlv_loop (drop (unat l) rest) 0 ?r"
      by (rule readTlv_loop_shift)
    with True step show ?thesis by (simp add: min_absorb2)
  next
    case False
    with step show ?thesis by (simp add: readTlv_loop_past readTlv_loop_Nil)
  qed
qed

lemma readTlv_store_twice:
  "readTlv_store (readTlv_store r k a) k b = readTlv_store r k (a @ b)"
  by (simp add: readTlv_store_def update_conv' update_last split: option.splits)

lemma readTlv_store_fresh:
  "k \<notin> fst ` set r \<Longrightarrow> readTlv_store r k v = r @ [(k, v)]"
proof -
  assume k: "k \<notin> fst ` set r"
  then have "map_of r k = None" by (simp add: map_of_eq_None_iff)
  moreover from k have "AList.update k v r = r @ [(k, v)]"
    by (induction r) auto
  ultimately show ?thesis by (simp add: readTlv_store_def)
qed

lemma readTlv_loop_record:
  "length c \<le> 255 \<Longrightarrow>
     readTlv_loop (spec_record t c @ rest) 0 r = readTlv_loop rest 0 (readTlv_store r (unat t) c)"
  by (simp add: spec_record_def readTlv_loop_Cons unat_of_nat)

lemma readTlv_loop_stores:
  "\<forall>(t, c) \<in> set recs. length c \<le> 255 \<Longrightarrow>
     readTlv_loop (concat (map (\<lambda>(t, c). spec_record t c) recs) @ rest) 0 r
       = readTlv_loop rest 0 (readTlv_stores recs r)"
  by (induction recs arbitrary: r) (auto simp: readTlv_stores_def readTlv_loop_record)

subsection \<open>The chunks of a value\<close>

lemma spec_chunks_concat: "concat (spec_chunks v) = v"
  by (induction v rule: spec_chunks.induct) (subst spec_chunks.simps, simp)

lemma spec_chunks_bound: "c \<in> set (spec_chunks v) \<Longrightarrow> length c \<le> 255"
  by (induction v rule: spec_chunks.induct)
    (subst (asm) (2) spec_chunks.simps, auto split: if_splits)

lemma spec_records_short: "length v \<le> 255 \<Longrightarrow> spec_records tag v = spec_record tag v"
  by (simp add: spec_records_def spec_chunks.simps)

lemma spec_records_long:
  "255 < length v \<Longrightarrow>
     spec_records tag v = spec_record tag (take 255 v) @ spec_records tag (drop 255 v)"
  by (simp add: spec_records_def spec_chunks.simps [of v])

subsection \<open>The writer leaves its loop and emits the chunks in order\<close>

lemma writeTlv_while_records:
  "pos \<le> length val \<Longrightarrow> pos < length val \<or> val = [] \<Longrightarrow>
     \<exists>ps. writeTlv_while [tag] val pos (length val - pos) parts = Some ps \<and>
          concat ps = concat parts @ spec_records tag (drop pos val)"
proof (induction "length val - pos" arbitrary: pos parts rule: less_induct)
  case less
  show ?case
  proof (cases "length val - pos \<le> 255")
    case True
    with less.prems show ?thesis
      by (subst writeTlv_while.simps)
        (auto simp: Let_def spec_records_short spec_record_def subarray_def min_absorb1)
  next
    case False
    then have big: "255 < length val - pos" by simp
    let ?parts = "parts @ [[tag], [255], subarray val pos (pos + 255)]"
    have "\<exists>ps. writeTlv_while [tag] val (pos + 255) (length val - (pos + 255)) ?parts = Some ps \<and>
          concat ps = concat ?parts @ spec_records tag (drop (pos + 255) val)"
      using big by (intro less.hyps) auto
    then obtain ps
      where ps: "writeTlv_while [tag] val (pos + 255) (length val - (pos + 255)) ?parts = Some ps"
        and c: "concat ps = concat ?parts @ spec_records tag (drop (pos + 255) val)"
      by blast
    from big have arith: "pos < length val" "\<not> length val \<le> pos + 255"
      "length val - pos \<noteq> 0" "min (length val - pos) 255 = 255"
      "length val - pos - 255 = length val - (pos + 255)" by auto
    have unf: "writeTlv_while [tag] val pos (length val - pos) parts =
        writeTlv_while [tag] val (pos + 255) (length val - (pos + 255)) ?parts"
      by (subst writeTlv_while.simps) (simp add: Let_def arith)
    have "spec_records tag (drop pos val)
        = spec_record tag (take 255 (drop pos val)) @ spec_records tag (drop (pos + 255) val)"
      using big by (simp add: spec_records_long add.commute)
    with ps c unf big show ?thesis
      by (simp add: spec_record_def subarray_def min_absorb2)
  qed
qed

lemma writeTlv_for_records:
  "\<exists>ps. writeTlv_for m parts = Some ps \<and>
     concat ps = concat parts @ concat (map (\<lambda>(k, v). spec_records (of_nat k) v) m)"
proof (induction m arbitrary: parts)
  case Nil
  show ?case by simp
next
  case (Cons e m)
  obtain k v where e: "e = (k, v)" by (cases e)
  have "0 < length v \<or> v = []" by auto
  then obtain ps where ps: "writeTlv_while [of_nat k] v 0 (length v - 0) parts = Some ps"
    and c: "concat ps = concat parts @ spec_records (of_nat k) (drop 0 v)"
    using writeTlv_while_records [of 0 v "of_nat k" parts] by auto
  from Cons.IH [of ps] obtain qs where "writeTlv_for m ps = Some qs"
    and "concat qs = concat ps @ concat (map (\<lambda>(k, v). spec_records (of_nat k) v) m)"
    by blast
  with ps c e show ?case by simp
qed

lemma writeTlv_records:
  "writeTlv m = Some (concat (map (\<lambda>(k, v). spec_records (of_nat k) v) m))"
  using writeTlv_for_records [of m "[]"] by (auto simp: writeTlv_def)

subsection \<open>Reading back what was written\<close>

lemma readTlv_loop_records:
  "readTlv_loop (spec_records t v @ rest) 0 r = readTlv_loop rest 0 (readTlv_store r (unat t) v)"
proof (induction v arbitrary: r rule: spec_chunks.induct)
  case (1 v)
  show ?case
  proof (cases "length v \<le> 255")
    case True
    then show ?thesis by (simp add: spec_records_short readTlv_loop_record)
  next
    case False
    then have "readTlv_loop (spec_records t v @ rest) 0 r
        = readTlv_loop (spec_records t (drop 255 v) @ rest) 0
            (readTlv_store r (unat t) (take 255 v))"
      by (simp add: spec_records_long readTlv_loop_record)
    also have "\<dots> = readTlv_loop rest 0
        (readTlv_store (readTlv_store r (unat t) (take 255 v)) (unat t) (drop 255 v))"
      using False by (intro "1.IH") simp
    finally show ?thesis by (simp add: readTlv_store_twice)
  qed
qed

lemma readTlv_loop_entries:
  "distinct (map fst (r @ m)) \<Longrightarrow> \<forall>k \<in> fst ` set m. k < 256 \<Longrightarrow>
     readTlv_loop (concat (map (\<lambda>(k, v). spec_records (of_nat k) v) m)) 0 r = r @ m"
proof (induction m arbitrary: r)
  case Nil
  show ?case by (simp add: readTlv_loop_Nil)
next
  case (Cons e m)
  obtain k v where e: "e = (k, v)" by (cases e)
  with Cons.prems have k: "k < 256" and fresh: "k \<notin> fst ` set r" by auto
  have "distinct (map fst ((r @ [(k, v)]) @ m))" using Cons.prems e by simp
  moreover have "\<forall>k \<in> fst ` set m. k < 256" using Cons.prems by simp
  ultimately have
    "readTlv_loop (concat (map (\<lambda>(k, v). spec_records (of_nat k) v) m)) 0 (r @ [(k, v)])
      = (r @ [(k, v)]) @ m" by (rule Cons.IH)
  with e k fresh show ?case
    by (simp add: readTlv_loop_records readTlv_store_fresh unat_of_nat)
qed

lemma tlv_roundtrip:
  "distinct (map fst m) \<Longrightarrow> \<forall>k \<in> fst ` set m. k < 256 \<Longrightarrow>
     \<exists>bs. writeTlv m = Some bs \<and> readTlv bs = m"
  using readTlv_loop_entries [of "[]" m] by (simp add: writeTlv_records readTlv_def)

subsection \<open>C3: a declared length beyond the end of the input\<close>

text \<open>
  C3, as stated, fails. The buffer \<open>01 05 AA\<close> declares five bytes under tag 1 and
  holds one: \<open>readTlv\<close> has no error path, \<open>subarray\<close> clamps to the end of the buffer,
  and the reader returns the map \<open>{1: AA}\<close>.
\<close>

theorem readTlv_truncated_counterexample:
  "spec_truncated [0x01, 0x05, 0xAA] \<and> readTlv [0x01, 0x05, 0xAA] = [(1, [0xAA])]"
  by (simp add: readTlv_def readTlv_loop_Cons readTlv_loop_Nil readTlv_store_def)

text \<open>
  C3, amended: the TLV8 reader never fails. On a buffer of complete records followed by a
  record whose declared length exceeds the bytes that remain, it returns the map of the
  complete records with the remaining bytes added under the last record's tag.
\<close>

theorem readTlv_truncated_returns:
  assumes "length rest < unat l"
    and "\<forall>(t, c) \<in> set recs. length c \<le> 255"
  shows "readTlv (concat (map (\<lambda>(t, c). spec_record t c) recs) @ t # l # rest)
           = readTlv_store (readTlv_stores recs []) (unat t) rest"
proof -
  have "readTlv (concat (map (\<lambda>(t, c). spec_record t c) recs) @ t # l # rest)
      = readTlv_loop (t # l # rest) 0 (readTlv_stores recs [])"
    using assms(2) by (simp add: readTlv_def readTlv_loop_stores)
  also have "\<dots> = readTlv_store (readTlv_stores recs []) (unat t) rest"
    using assms(1) by (simp add: readTlv_loop_Cons readTlv_loop_Nil)
  finally show ?thesis .
qed

theorem readTlv_truncated_returns_witness:
  "length [0xAA :: u8] < unat (0x05 :: u8)
   \<and> length [0x07 :: u8] \<le> 255
   \<and> readTlv [0x02, 0x01, 0x07, 0x01, 0x05, 0xAA] = [(2, [0x07]), (1, [0xAA])]"
proof -
  have h1: "length [0xAA :: u8] < unat (0x05 :: u8)" by simp
  have h2: "\<forall>(t, c) \<in> set [(0x02 :: u8, [0x07 :: u8])]. length c \<le> 255" by simp
  have "readTlv (concat (map (\<lambda>(t, c). spec_record t c) [(0x02, [0x07])]) @ [0x01, 0x05, 0xAA])
      = readTlv_store (readTlv_stores [(0x02, [0x07])] []) (unat (0x01 :: u8)) [0xAA]"
    using readTlv_truncated_returns [OF h1 h2, of "0x01"] by simp
  then have "readTlv [0x02, 0x01, 0x07, 0x01, 0x05, 0xAA] = [(2, [0x07]), (1, [0xAA])]"
    by (simp add: spec_record_def readTlv_stores_def readTlv_store_def)
  with h1 show ?thesis by simp
qed

subsection \<open>C4: fragmentation of long values\<close>

text \<open>
  C4: writing \<open>{0x03: 300 bytes of AA}\<close> gives \<open>03 FF\<close>, 255 bytes \<open>AA\<close>, \<open>03 2D\<close>,
  45 bytes \<open>AA\<close>, and reading that buffer gives the single 300-byte value under tag 3.
  In general the writer leaves its loop on every map and emits, entry by entry, the
  value's chunks of at most 255 bytes as consecutive records with the entry's tag; the
  reader adds the chunks of records to what it holds under their tag, in order; and a
  map with distinct tags below 256 is read back as it was written.
\<close>

theorem tlv_fragmentation:
  "writeTlv [(0x03, replicate 300 0xAA)]
     = Some ([0x03, 0xFF] @ replicate 255 0xAA @ [0x03, 0x2D] @ replicate 45 0xAA)
   \<and> readTlv ([0x03, 0xFF] @ replicate 255 0xAA @ [0x03, 0x2D] @ replicate 45 0xAA)
       = [(0x03, replicate 300 0xAA)]
   \<and> (\<forall>m. writeTlv m = Some (concat (map (\<lambda>(k, v). spec_records (of_nat k) v) m)))
   \<and> (\<forall>v. concat (spec_chunks v) = v \<and> (\<forall>c \<in> set (spec_chunks v). length c \<le> 255))
   \<and> (\<forall>recs. (\<forall>(t, c) \<in> set recs. length c \<le> 255) \<longrightarrow>
         readTlv (concat (map (\<lambda>(t, c). spec_record t c) recs)) = readTlv_stores recs [])
   \<and> (\<forall>m. distinct (map fst m) \<and> (\<forall>k \<in> fst ` set m. k < 256) \<longrightarrow>
         (\<exists>bs. writeTlv m = Some bs \<and> readTlv bs = m))"
proof -
  have w: "writeTlv [(0x03, replicate 300 0xAA)]
     = Some ([0x03, 0xFF] @ replicate 255 0xAA @ [0x03, 0x2D] @ replicate 45 0xAA)"
    by (simp add: writeTlv_def writeTlv_while.simps subarray_def Let_def)
  have r: "readTlv ([0x03, 0xFF] @ replicate 255 0xAA @ [0x03, 0x2D] @ replicate 45 0xAA)
       = [(0x03, replicate 300 0xAA)]"
    by (simp add: readTlv_def readTlv_loop_Cons readTlv_loop_Nil readTlv_store_def
        replicate_add [symmetric])
  have s: "readTlv (concat (map (\<lambda>(t, c). spec_record t c) recs)) = readTlv_stores recs []"
    if "\<forall>(t, c) \<in> set recs. length c \<le> 255" for recs
    using readTlv_loop_stores [OF that, of "[]" "[]"]
    by (simp add: readTlv_def readTlv_loop_Nil)
  have g: "\<forall>m. writeTlv m = Some (concat (map (\<lambda>(k, v). spec_records (of_nat k) v) m))"
    by (simp add: writeTlv_records)
  have c: "\<forall>v. concat (spec_chunks v) = v \<and> (\<forall>c \<in> set (spec_chunks v). length c \<le> 255)"
    by (simp add: spec_chunks_concat spec_chunks_bound)
  have t: "\<forall>m. distinct (map fst m) \<and> (\<forall>k \<in> fst ` set m. k < 256) \<longrightarrow>
         (\<exists>bs. writeTlv m = Some bs \<and> readTlv bs = m)"
    using tlv_roundtrip by blast
  from s have s': "\<forall>recs. (\<forall>(t, c) \<in> set recs. length c \<le> 255) \<longrightarrow>
         readTlv (concat (map (\<lambda>(t, c). spec_record t c) recs)) = readTlv_stores recs []"
    by blast
  show ?thesis
    by (intro conjI) (rule w, rule r, rule g, rule c, rule s', rule t)
qed

theorem tlv_fragmentation_witness:
  "length (replicate 255 (0xAA :: u8)) \<le> 255 \<and> length (replicate 45 (0xAA :: u8)) \<le> 255
   \<and> readTlv (concat (map (\<lambda>(t, c). spec_record t c)
         [(0x03, replicate 255 0xAA), (0x03, replicate 45 0xAA)]))
       = [(3, replicate 300 0xAA)]
   \<and> distinct (map fst [(0x03 :: nat, replicate 300 (0xAA :: u8)), (0x06, [0x01])])
   \<and> (0x03 :: nat) < 256 \<and> (0x06 :: nat) < 256
   \<and> (\<exists>bs. writeTlv [(0x03, replicate 300 0xAA), (0x06, [0x01])] = Some bs
          \<and> readTlv bs = [(0x03, replicate 300 0xAA), (0x06, [0x01])])"
proof -
  let ?recs = "[(0x03 :: u8, replicate 255 (0xAA :: u8)), (0x03, replicate 45 0xAA)]"
  let ?m = "[(0x03 :: nat, replicate 300 (0xAA :: u8)), (0x06, [0x01])]"
  have h1: "\<forall>(t, c) \<in> set ?recs. length c \<le> 255" by simp
  have "readTlv (concat (map (\<lambda>(t, c). spec_record t c) ?recs)) = readTlv_stores ?recs []"
    using tlv_fragmentation h1 by blast
  then have s: "readTlv (concat (map (\<lambda>(t, c). spec_record t c) ?recs))
      = [(3, replicate 300 0xAA)]"
    by (simp add: readTlv_stores_def readTlv_store_def replicate_add [symmetric])
  have h2: "distinct (map fst ?m)" by simp
  have h3: "\<forall>k \<in> fst ` set ?m. k < 256" by simp
  have e: "\<exists>bs. writeTlv ?m = Some bs \<and> readTlv bs = ?m"
    using tlv_fragmentation h2 h3 by blast
  show ?thesis
    by (intro conjI) (simp, simp, rule s, rule h2, simp, simp, rule e)
qed

section \<open>The cipher's nonces and counters\<close>

declare writeLECounter_loop.simps [simp del]

lemma and_ff: "(c::nat) AND 0xff = c mod 256"
  using take_bit_eq_mask [of 8 c] by (simp add: take_bit_eq_mod mask_eq_exp_minus_1)

lemma byte_and: "(of_nat (c AND 0xff) :: u8) = of_nat c"
  by (simp add: and_ff word_of_nat_eq_iff take_bit_eq_mod)

text \<open>What the loop of \<open>writeLECounter\<close> leaves in the buffer, from any index on.\<close>

lemma writeLECounter_loop_bytes:
  "i \<le> min len 8 \<Longrightarrow> len \<le> length buf \<Longrightarrow>
     writeLECounter_loop buf c len i =
       take i buf @ map (\<lambda>k. of_nat (c div 256 ^ k)) [0..<min len 8 - i] @ drop (min len 8) buf"
proof (induction buf c len i rule: writeLECounter_loop.induct)
  case (1 buf c len i)
  show ?case
  proof (cases "i < len \<and> i < 8")
    case False
    with "1.prems" have "i = min len 8" by auto
    with False show ?thesis
      by (subst writeLECounter_loop.simps) auto
  next
    case True
    let ?x = "of_nat c :: u8"
    let ?m = "min len 8"
    from True "1.prems" have i: "i < ?m" "i < length buf" "?m \<le> length buf" by auto
    have unf: "writeLECounter_loop buf c len i
        = writeLECounter_loop (buf[i := ?x]) (c div 256) len (i + 1)"
      using True by (subst writeLECounter_loop.simps) (simp add: byte_and drop_bit_eq_div)
    have ih: "writeLECounter_loop (buf[i := ?x]) (c div 256) len (i + 1)
        = take (i + 1) (buf[i := ?x])
          @ map (\<lambda>k. of_nat (c div 256 div 256 ^ k)) [0..<?m - (i + 1)]
          @ drop ?m (buf[i := ?x])"
    proof -
      have "i + 1 \<le> min len 8" "len \<le> length (buf[i := of_nat (c AND 0xff)])"
        using True "1.prems" by auto
      from "1.IH" [OF True this] show ?thesis
        by (simp add: byte_and drop_bit_eq_div)
    qed
    have tk: "take (i + 1) (buf[i := ?x]) = take i buf @ [?x]"
      using i by (simp add: take_Suc_conv_app_nth)
    have dr: "drop ?m (buf[i := ?x]) = drop ?m buf"
      using i by simp
    have mp: "?x # map (\<lambda>k. of_nat (c div 256 div 256 ^ k)) [0..<?m - (i + 1)]
        = map (\<lambda>k. of_nat (c div 256 ^ k)) [0..<?m - i]"
    proof -
      from i obtain d where d: "?m - i = Suc d" by (cases "?m - i") auto
      then have "?m - (i + 1) = d" by simp
      with d show ?thesis
        by (simp add: upt_conv_Cons map_Suc_upt [symmetric] div_mult2_eq del: upt_Suc)
    qed
    show ?thesis
      unfolding unf ih tk dr by (simp add: mp [symmetric])
  qed
qed

lemma writeLECounter_12:
  "writeLECounter (replicate 12 0) n 12 = spec_le64 n @ replicate 4 0"
  by (simp add: writeLECounter_def writeLECounter_loop_bytes spec_le64_def)

lemma writeLECounter_8:
  "writeLECounter (replicate 8 0) n 8 = spec_le64 n"
  by (simp add: writeLECounter_def writeLECounter_loop_bytes spec_le64_def)

lemma spec_le64_bytes:
  "spec_le64 n = [of_nat n, of_nat (n div 256), of_nat (n div 256 div 256),
     of_nat (n div 256 div 256 div 256), of_nat (n div 256 div 256 div 256 div 256),
     of_nat (n div 256 div 256 div 256 div 256 div 256),
     of_nat (n div 256 div 256 div 256 div 256 div 256 div 256),
     of_nat (n div 256 div 256 div 256 div 256 div 256 div 256 div 256)]"
  by (simp add: spec_le64_def upt_rec div_mult2_eq [symmetric])

lemma replicate_4_zero: "replicate 4 (0::u8) = [0, 0, 0, 0]"
  by (simp add: numeral_eq_Suc)

lemma getOutNonce_12:
  "nonceLength c = 12 \<Longrightarrow> getOutNonce c = spec_le64 (outCounter c) @ replicate 4 0"
  by (simp add: getOutNonce_def NONCE_LENGTH_def writeLECounter_12)

text \<open>
  The 8-byte variant in counter mode, for the record: its eight counter bytes are padded
  like an explicit nonce, so they follow four zero bytes.
\<close>

lemma getOutNonce_8:
  "nonceLength c = 8 \<Longrightarrow> getOutNonce c = replicate 4 0 @ spec_le64 (outCounter c)"
  by (simp add: getOutNonce_def NONCE_LENGTH_def writeLECounter_8 padNonce_def spec_le64_def)

lemma getInNonce_12:
  "nonceLength c = 12 \<Longrightarrow> getInNonce c = spec_le64 (inCounter c) @ replicate 4 0"
  by (simp add: getInNonce_def NONCE_LENGTH_def writeLECounter_12)

lemma getInNonce_8:
  "nonceLength c = 8 \<Longrightarrow> getInNonce c = replicate 4 0 @ spec_le64 (inCounter c)"
  by (simp add: getInNonce_def NONCE_LENGTH_def writeLECounter_8 padNonce_def spec_le64_def)

lemma padNonce_PV_Msg02:
  "padNonce (utf8 ''PV-Msg02'') = [0, 0, 0, 0, 0x50, 0x56, 0x2D, 0x4D, 0x73, 0x67, 0x30, 0x32]"
  by (simp add: padNonce_def utf8_def NONCE_LENGTH_def replicate_4_zero)

subsection \<open>C6: nonce formation\<close>

text \<open>
  C6: with the 12-byte nonce field, the nonce of counter mode is the counter as eight
  little-endian bytes followed by four zero bytes, in both directions: \<open>getOutNonce\<close>
  forms it from \<open>outCounter\<close> and it is the nonce \<open>encrypt\<close> hands to the library with
  the outbound key, \<open>getInNonce\<close> forms it from \<open>inCounter\<close> and it is the nonce
  \<open>decrypt\<close> hands to the library with the inbound key (a counter of 5 gives
  \<open>05 00 00 00 00 00 00 00 00 00 00 00\<close>). An explicit nonce of fewer than 12 bytes is
  used, by \<open>encrypt\<close> and by \<open>decrypt\<close>, with zero bytes in front, up to 12 bytes
  (\<open>"PV-Msg02"\<close> gives \<open>00 00 00 00 50 56 2D 4D 73 67 30 32\<close>); one of 12 bytes or
  more is used as it is.
\<close>

theorem nonce_formation:
  "(nonceLength c = 12 \<longrightarrow>
      getOutNonce c = spec_le64 (outCounter c) @ replicate 4 0
      \<and> fst (encrypt f c data None aad)
          = f (outKey c) (spec_le64 (outCounter c) @ replicate 4 0) aad data)
   \<and> getOutNonce ((new_Chacha20Cipher ok ik 12)\<lparr>outCounter := 5\<rparr>)
       = [0x05, 0, 0, 0, 0, 0, 0, 0, 0, 0, 0, 0]
   \<and> (length n < 12 \<longrightarrow>
        padNonce n = replicate (12 - length n) 0 @ n
        \<and> fst (encrypt f c data (Some n) aad)
            = f (outKey c) (replicate (12 - length n) 0 @ n) aad data)
   \<and> padNonce (utf8 ''PV-Msg02'')
       = [0, 0, 0, 0, 0x50, 0x56, 0x2D, 0x4D, 0x73, 0x67, 0x30, 0x32]
   \<and> (nonceLength c = 12 \<longrightarrow>
      getInNonce c = spec_le64 (inCounter c) @ replicate 4 0
      \<and> fst (decrypt g c data None aad)
          = g (inKey c) (spec_le64 (inCounter c) @ replicate 4 0) aad data)
   \<and> getInNonce ((new_Chacha20Cipher ok ik 12)\<lparr>inCounter := 5\<rparr>)
       = [0x05, 0, 0, 0, 0, 0, 0, 0, 0, 0, 0, 0]
   \<and> (length n < 12 \<longrightarrow>
        fst (decrypt g c data (Some n) aad)
          = g (inKey c) (replicate (12 - length n) 0 @ n) aad data)
   \<and> fst (decrypt g c data (Some (utf8 ''PV-Msg02'')) aad)
       = g (inKey c) [0, 0, 0, 0, 0x50, 0x56, 0x2D, 0x4D, 0x73, 0x67, 0x30, 0x32] aad data
   \<and> fst (encrypt f c data (Some (utf8 ''PV-Msg02'')) aad)
       = f (outKey c) [0, 0, 0, 0, 0x50, 0x56, 0x2D, 0x4D, 0x73, 0x67, 0x30, 0x32] aad data
   \<and> (12 \<le> length n \<longrightarrow>
        padNonce n = n
        \<and> fst (encrypt f c data (Some n) aad) = f (outKey c) n aad data
        \<and> fst (decrypt g c data (Some n) aad) = g (inKey c) n aad data)"
proof -
  have a: "nonceLength c = 12 \<longrightarrow>
      getOutNonce c = spec_le64 (outCounter c) @ replicate 4 0
      \<and> fst (encrypt f c data None aad)
          = f (outKey c) (spec_le64 (outCounter c) @ replicate 4 0) aad data"
    by (simp add: encrypt_def getOutNonce_12 Let_def)
  have b: "getOutNonce ((new_Chacha20Cipher ok ik 12)\<lparr>outCounter := 5\<rparr>)
       = [0x05, 0, 0, 0, 0, 0, 0, 0, 0, 0, 0, 0]"
    by (simp add: getOutNonce_12 new_Chacha20Cipher_def spec_le64_bytes replicate_4_zero)
  have c: "length n < 12 \<longrightarrow>
        padNonce n = replicate (12 - length n) 0 @ n
        \<and> fst (encrypt f c data (Some n) aad)
            = f (outKey c) (replicate (12 - length n) 0 @ n) aad data"
    by (simp add: encrypt_def padNonce_def NONCE_LENGTH_def)
  have d: "padNonce (utf8 ''PV-Msg02'')
       = [0, 0, 0, 0, 0x50, 0x56, 0x2D, 0x4D, 0x73, 0x67, 0x30, 0x32]"
    by (rule padNonce_PV_Msg02)
  have e: "nonceLength c = 12 \<longrightarrow>
      getInNonce c = spec_le64 (inCounter c) @ replicate 4 0
      \<and> fst (decrypt g c data None aad)
          = g (inKey c) (spec_le64 (inCounter c) @ replicate 4 0) aad data"
    by (simp add: decrypt_def getInNonce_12 Let_def)
  have f: "getInNonce ((new_Chacha20Cipher ok ik 12)\<lparr>inCounter := 5\<rparr>)
       = [0x05, 0, 0, 0, 0, 0, 0, 0, 0, 0, 0, 0]"
    by (simp add: getInNonce_12 new_Chacha20Cipher_def spec_le64_bytes replicate_4_zero)
  have g: "length n < 12 \<longrightarrow>
        fst (decrypt g c data (Some n) aad)
          = g (inKey c) (replicate (12 - length n) 0 @ n) aad data"
    by (simp add: decrypt_def padNonce_def NONCE_LENGTH_def)
  have l8: "length (utf8 ''PV-Msg02'') < NONCE_LENGTH"
    by (simp add: utf8_def NONCE_LENGTH_def)
  have h: "fst (decrypt g c data (Some (utf8 ''PV-Msg02'')) aad)
       = g (inKey c) [0, 0, 0, 0, 0x50, 0x56, 0x2D, 0x4D, 0x73, 0x67, 0x30, 0x32] aad data"
    by (simp add: decrypt_def l8 padNonce_PV_Msg02)
  have i: "fst (encrypt f c data (Some (utf8 ''PV-Msg02'')) aad)
       = f (outKey c) [0, 0, 0, 0, 0x50, 0x56, 0x2D, 0x4D, 0x73, 0x67, 0x30, 0x32] aad data"
    by (simp add: encrypt_def l8 padNonce_PV_Msg02)
  have j: "12 \<le> length n \<longrightarrow>
        padNonce n = n
        \<and> fst (encrypt f c data (Some n) aad) = f (outKey c) n aad data
        \<and> fst (decrypt g c data (Some n) aad) = g (inKey c) n aad data"
    by (simp add: encrypt_def decrypt_def padNonce_def NONCE_LENGTH_def)
  show ?thesis
    by (intro conjI) (rule a, rule b, rule c, rule d, rule e, rule f, rule g, rule h, rule i,
      rule j)
qed

theorem nonce_formation_witness:
  "nonceLength ((new_Chacha20Cipher [] [] 12)\<lparr>outCounter := 258, inCounter := 513\<rparr>) = 12
   \<and> getOutNonce ((new_Chacha20Cipher [] [] 12)\<lparr>outCounter := 258, inCounter := 513\<rparr>)
       = [0x02, 0x01, 0, 0, 0, 0, 0, 0, 0, 0, 0, 0]
   \<and> length (utf8 ''PS-Msg05'') < 12
   \<and> padNonce (utf8 ''PS-Msg05'')
       = [0, 0, 0, 0, 0x50, 0x53, 0x2D, 0x4D, 0x73, 0x67, 0x30, 0x35]
   \<and> getInNonce ((new_Chacha20Cipher [] [] 12)\<lparr>outCounter := 258, inCounter := 513\<rparr>)
       = [0x01, 0x02, 0, 0, 0, 0, 0, 0, 0, 0, 0, 0]
   \<and> fst (decrypt (\<lambda>k n a d. Inr (k @ n)) ((new_Chacha20Cipher [] [0xAB] 12)\<lparr>inCounter := 513\<rparr>)
            [] None None)
       = Inr [0xAB, 0x01, 0x02, 0, 0, 0, 0, 0, 0, 0, 0, 0, 0]
   \<and> fst (decrypt (\<lambda>k n a d. Inr (k @ n)) (new_Chacha20Cipher [] [0xAB] 12) []
            (Some (utf8 ''PS-Msg05'')) None)
       = Inr [0xAB, 0, 0, 0, 0, 0x50, 0x53, 0x2D, 0x4D, 0x73, 0x67, 0x30, 0x35]
   \<and> (12::nat) \<le> length (utf8 ''PS-Msg05-long'')
   \<and> padNonce (utf8 ''PS-Msg05-long'') = utf8 ''PS-Msg05-long''"
proof -
  let ?c = "(new_Chacha20Cipher [] [] 12)\<lparr>outCounter := 258, inCounter := 513\<rparr>"
  let ?d = "(new_Chacha20Cipher [] [0xAB] 12)\<lparr>inCounter := 513\<rparr>"
  let ?e = "new_Chacha20Cipher [] [0xAB] 12"
  let ?g = "\<lambda>k n a d. Inr (k @ n) :: error + bytes"
  have h1: "nonceLength ?c = 12" by (simp add: new_Chacha20Cipher_def)
  have h1d: "nonceLength ?d = 12" by (simp add: new_Chacha20Cipher_def)
  have h2: "length (utf8 ''PS-Msg05'') < 12" by (simp add: utf8_def)
  have h3: "(12::nat) \<le> length (utf8 ''PS-Msg05-long'')" by (simp add: utf8_def)
  from nonce_formation [of ?c] h1
  have "getOutNonce ?c = spec_le64 (outCounter ?c) @ replicate 4 0" by blast
  then have g: "getOutNonce ?c = [0x02, 0x01, 0, 0, 0, 0, 0, 0, 0, 0, 0, 0]"
    by (simp add: spec_le64_bytes replicate_4_zero)
  from nonce_formation [of _ _ _ _ _ _ "utf8 ''PS-Msg05''"] h2
  have "padNonce (utf8 ''PS-Msg05'')
      = replicate (12 - length (utf8 ''PS-Msg05'')) 0 @ utf8 ''PS-Msg05''" by blast
  then have p: "padNonce (utf8 ''PS-Msg05'')
      = [0, 0, 0, 0, 0x50, 0x53, 0x2D, 0x4D, 0x73, 0x67, 0x30, 0x35]"
    by (simp add: utf8_def replicate_4_zero)
  from nonce_formation [of ?c] h1
  have "getInNonce ?c = spec_le64 (inCounter ?c) @ replicate 4 0" by blast
  then have gi: "getInNonce ?c = [0x01, 0x02, 0, 0, 0, 0, 0, 0, 0, 0, 0, 0]"
    by (simp add: spec_le64_bytes replicate_4_zero)
  from nonce_formation [of ?d _ "[]" None _ _ _ ?g] h1d
  have "fst (decrypt ?g ?d [] None None)
      = ?g (inKey ?d) (spec_le64 (inCounter ?d) @ replicate 4 0) None []" by blast
  then have di: "fst (decrypt ?g ?d [] None None)
      = Inr [0xAB, 0x01, 0x02, 0, 0, 0, 0, 0, 0, 0, 0, 0, 0]"
    by (simp add: spec_le64_bytes replicate_4_zero new_Chacha20Cipher_def)
  from nonce_formation [of ?e _ "[]" None _ _ "utf8 ''PS-Msg05''" ?g] h2
  have "fst (decrypt ?g ?e [] (Some (utf8 ''PS-Msg05'')) None)
      = ?g (inKey ?e) (replicate (12 - length (utf8 ''PS-Msg05'')) 0 @ utf8 ''PS-Msg05'') None []"
    by blast
  then have de: "fst (decrypt ?g ?e [] (Some (utf8 ''PS-Msg05'')) None)
      = Inr [0xAB, 0, 0, 0, 0, 0x50, 0x53, 0x2D, 0x4D, 0x73, 0x67, 0x30, 0x35]"
    by (simp add: utf8_def replicate_4_zero new_Chacha20Cipher_def)
  from nonce_formation [of _ _ _ _ _ _ "utf8 ''PS-Msg05-long''"] h3
  have pl: "padNonce (utf8 ''PS-Msg05-long'') = utf8 ''PS-Msg05-long''" by blast
  show ?thesis
    by (intro conjI) (rule h1, rule g, rule h2, rule p, rule gi, rule di, rule de, rule h3,
      rule pl)
qed

subsection \<open>C10: what encrypt and decrypt change\<close>

text \<open>
  C10: with an explicit nonce, \<open>encrypt\<close> and \<open>decrypt\<close> leave the cipher as it was
  (both counters, both keys, the nonce length). With the nonce omitted, \<open>encrypt\<close>
  changes \<open>outCounter\<close> only, by one, and \<open>decrypt\<close> changes \<open>inCounter\<close> only, by
  one, whatever the library call returns.
\<close>

theorem cipher_counters:
  "snd (encrypt f c data (Some n) aad) = c
   \<and> snd (decrypt g c data (Some n) aad) = c
   \<and> snd (encrypt f c data None aad) = c\<lparr>outCounter := outCounter c + 1\<rparr>
   \<and> snd (decrypt g c data None aad) = c\<lparr>inCounter := inCounter c + 1\<rparr>
   \<and> outCounter (snd (encrypt f c data None aad)) = outCounter c + 1
   \<and> inCounter (snd (encrypt f c data None aad)) = inCounter c
   \<and> inCounter (snd (decrypt g c data None aad)) = inCounter c + 1
   \<and> outCounter (snd (decrypt g c data None aad)) = outCounter c"
  by (simp add: encrypt_def decrypt_def Let_def)

section \<open>C5: the bytes of a sent frame\<close>

lemma frame_header_be24: "frame_header ft n = of_nat ft # spec_be24 n"
  by (simp add: frame_header_def spec_be24_def byte_and drop_bit_eq_div)

lemma split24: "65536 * (n div 65536) + n div 256 mod 256 * 256 + n mod 256 = (n::nat)"
proof -
  define q where "q = n div 256"
  define a where "a = q div 256"
  have "n = 256 * q + n mod 256" by (simp add: q_def)
  moreover have "q = 256 * a + q mod 256" by (simp add: a_def)
  moreover have "n div 65536 = a" by (simp add: a_def q_def div_mult2_eq)
  ultimately show ?thesis unfolding q_def [symmetric] by linarith
qed

lemma be_value_spec_be24: "n < 2 ^ 24 \<Longrightarrow> be_value (spec_be24 n) = n"
proof -
  assume n: "n < 2 ^ 24"
  have "unat (of_nat (n div 65536) :: u8) = n div 65536"
    using n by (simp add: unat_of_nat)
  moreover have "unat (of_nat (n div 256) :: u8) = n div 256 mod 256"
    by (simp add: unat_of_nat)
  moreover have "unat (of_nat n :: u8) = n mod 256"
    by (simp add: unat_of_nat)
  ultimately show ?thesis
    by (simp add: be_value_def spec_be24_def split24)
qed

text \<open>
  C5: on a connected socket without a cipher, \<open>send\<close> writes, in one write, the type
  byte, the payload length as three big-endian bytes and the payload (type 8 with payload
  \<open>E0\<close> is \<open>08 00 00 01 E0\<close>). With a cipher installed and a non-empty payload, the
  length field is the plaintext length plus 16, the four header bytes are the associated
  data of the library call, under the counter nonce, and what is written is the header
  followed by the library's output; the out counter advances by one. The three length
  bytes hold the length exactly while it is below \<open>2 ^ 24\<close>.
\<close>

theorem send_frame:
  assumes "socket conn = Some written" and "connected conn"
  shows "(chacha conn = None \<longrightarrow>
            send f ft data conn
              = (Inr (), conn\<lparr>socket := Some (written @ [of_nat ft # spec_be24 (length data) @ data])\<rparr>))
         \<and> (\<forall>c ct. chacha conn = Some c \<and> data \<noteq> []
               \<and> f (outKey c) (getOutNonce c) (Some (of_nat ft # spec_be24 (length data + 16))) data
                   = Inr ct \<longrightarrow>
             send f ft data conn
               = (Inr (), conn\<lparr>socket := Some (written @ [(of_nat ft # spec_be24 (length data + 16)) @ ct]),
                            chacha := Some (c\<lparr>outCounter := outCounter c + 1\<rparr>)\<rparr>))
         \<and> (length data + 16 < 2 ^ 24 \<longrightarrow>
              be_value (spec_be24 (length data)) = length data
              \<and> be_value (spec_be24 (length data + 16)) = length data + 16)
         \<and> send f 8 [0xE0] \<lparr>socket = Some [], chacha = None, connected = True\<rparr>
             = (Inr (), \<lparr>socket = Some [[0x08, 0x00, 0x00, 0x01, 0xE0]], chacha = None,
                         connected = True\<rparr>)
         \<and> of_nat 8 # spec_be24 (length [0xE0 :: u8] + 16) = [0x08, 0x00, 0x00, 0x11]"
proof -
  have a: "chacha conn = None \<longrightarrow>
            send f ft data conn
              = (Inr (), conn\<lparr>socket := Some (written @ [of_nat ft # spec_be24 (length data) @ data])\<rparr>)"
    using assms by (simp add: send_def frame_header_be24)
  have b: "\<forall>c ct. chacha conn = Some c \<and> data \<noteq> []
               \<and> f (outKey c) (getOutNonce c) (Some (of_nat ft # spec_be24 (length data + 16))) data
                   = Inr ct \<longrightarrow>
             send f ft data conn
               = (Inr (), conn\<lparr>socket := Some (written @ [(of_nat ft # spec_be24 (length data + 16)) @ ct]),
                            chacha := Some (c\<lparr>outCounter := outCounter c + 1\<rparr>)\<rparr>)"
    using assms
    by (simp add: send_def frame_header_be24 encrypt_def AUTH_TAG_LENGTH_def Let_def)
  have c: "length data + 16 < 2 ^ 24 \<longrightarrow>
              be_value (spec_be24 (length data)) = length data
              \<and> be_value (spec_be24 (length data + 16)) = length data + 16"
    by (simp add: be_value_spec_be24)
  have d: "send f 8 [0xE0] \<lparr>socket = Some [], chacha = None, connected = True\<rparr>
             = (Inr (), \<lparr>socket = Some [[0x08, 0x00, 0x00, 0x01, 0xE0]], chacha = None,
                         connected = True\<rparr>)"
    by (simp add: send_def frame_header_be24 spec_be24_def)
  have e: "of_nat 8 # spec_be24 (length [0xE0 :: u8] + 16) = [0x08 :: u8, 0x00, 0x00, 0x11]"
    by (simp add: spec_be24_def)
  show ?thesis
    by (intro conjI) (rule a, rule b, rule c, rule d, rule e)
qed

theorem send_frame_witness:
  "socket \<lparr>socket = Some [], chacha = Some (new_Chacha20Cipher [] [] 12), connected = True\<rparr>
     = Some []
   \<and> connected \<lparr>socket = Some [], chacha = Some (new_Chacha20Cipher [] [] 12), connected = True\<rparr>
   \<and> send (\<lambda>key nonce aad d. Inr (d @ replicate 16 0)) 8 [0xE0]
        \<lparr>socket = Some [], chacha = Some (new_Chacha20Cipher [] [] 12), connected = True\<rparr>
       = (Inr (),
          \<lparr>socket = Some [[0x08, 0x00, 0x00, 0x11, 0xE0] @ replicate 16 0],
           chacha = Some ((new_Chacha20Cipher [] [] 12)\<lparr>outCounter := 1\<rparr>),
           connected = True\<rparr>)"
proof -
  let ?c = "new_Chacha20Cipher [] [] 12"
  let ?conn = "\<lparr>socket = Some [], chacha = Some ?c, connected = True\<rparr>"
  let ?f = "\<lambda>(key :: bytes) (nonce :: bytes) (aad :: bytes option) (d :: bytes).
              (Inr (d @ replicate 16 0) :: error + bytes)"
  have h1: "socket ?conn = Some []" by simp
  have h2: "connected ?conn" by simp
  have pre: "chacha ?conn = Some ?c \<and> [0xE0 :: u8] \<noteq> []
      \<and> ?f (outKey ?c) (getOutNonce ?c) (Some (of_nat 8 # spec_be24 (length [0xE0 :: u8] + 16)))
           [0xE0] = Inr ([0xE0] @ replicate 16 0)"
    by simp
  from send_frame [OF h1 h2, of ?f 8 "[0xE0]"] pre
  have "send ?f 8 [0xE0] ?conn
      = (Inr (), ?conn\<lparr>socket := Some ([] @ [(of_nat 8 # spec_be24 (length [0xE0 :: u8] + 16))
                                               @ ([0xE0] @ replicate 16 0)]),
                       chacha := Some (?c\<lparr>outCounter := outCounter ?c + 1\<rparr>)\<rparr>)"
    by blast
  then have s: "send ?f 8 [0xE0] ?conn
      = (Inr (),
          \<lparr>socket = Some [[0x08, 0x00, 0x00, 0x11, 0xE0] @ replicate 16 0],
           chacha = Some (?c\<lparr>outCounter := 1\<rparr>),
           connected = True\<rparr>)"
    by (simp add: spec_be24_def new_Chacha20Cipher_def)
  show ?thesis
    by (intro conjI) (rule h1, rule h2, rule s)
qed

section \<open>OPACK: back-references in the encoder and the decoder\<close>

subsection \<open>The encoder on strings of three bytes\<close>

lemma packString_abc: "packString ''abc'' = Inr [0x43, 0x61, 0x62, 0x63]"
  by (simp add: packString_def utf8_def)

lemma packString_xyz: "packString ''xyz'' = Inr [0x43, 0x78, 0x79, 0x7A]"
  by (simp add: packString_def utf8_def)

lemma pack_rec_abc_first:
  "pack_rec (JStr ''abc'') [] = Inr ([0x43, 0x61, 0x62, 0x63], [[0x43, 0x61, 0x62, 0x63]])"
  by (simp add: packString_abc dedup_def)

lemma pack_rec_abc_again:
  "pack_rec (JStr ''abc'') [[0x43, 0x61, 0x62, 0x63]] = Inr ([0xA0], [[0x43, 0x61, 0x62, 0x63]])"
  by (simp add: packString_abc dedup_def)

lemma pack_items_abc_abc:
  "pack_items [JStr ''abc'', JStr ''abc''] []
     = Inr ([0x43, 0x61, 0x62, 0x63, 0xA0], [[0x43, 0x61, 0x62, 0x63]])"
  by (simp add: pack_rec_abc_first pack_rec_abc_again del: pack_rec.simps)

lemma pack_abc_abc:
  "pack (JArr [JStr ''abc'', JStr ''abc'']) = Inr [0xD2, 0x43, 0x61, 0x62, 0x63, 0xA0]"
proof -
  have "pack_rec (JArr [JStr ''abc'', JStr ''abc'']) []
      = Inr (dedup [0xD2, 0x43, 0x61, 0x62, 0x63, 0xA0] [[0x43, 0x61, 0x62, 0x63]])"
    by (simp add: pack_items_abc_abc del: pack_items.simps)
  then show ?thesis
    by (simp add: pack_def dedup_def del: pack_rec.simps)
qed

subsection \<open>C2: the second occurrence of a string in an array\<close>

text \<open>
  C2, as stated, fails: the last byte \<open>pack\<close> emits for \<open>["abc", "abc"]\<close> is not \<open>A1\<close>.
\<close>

theorem pack_backref_counterexample:
  "pack (JArr [JStr ''abc'', JStr ''abc'']) \<noteq> Inr [0xD2, 0x43, 0x61, 0x62, 0x63, 0xA1]"
  by (simp add: pack_abc_abc)

text \<open>
  C2, amended: \<open>pack\<close> applied to \<open>["abc", "abc"]\<close> produces exactly the six bytes
  \<open>D2 43 61 62 63 A0\<close>. The encoding of the first \<open>"abc"\<close> is the first entry of the
  object list (the array's own encoding joins the list only after its items), so the
  second occurrence is the back-reference with index 0.
\<close>

theorem pack_backref_index_zero:
  "pack (JArr [JStr ''abc'', JStr ''abc'']) = Inr [0xD2, 0x43, 0x61, 0x62, 0x63, 0xA0]
   \<and> pack_items [JStr ''abc'', JStr ''abc''] []
       = Inr ([0x43, 0x61, 0x62, 0x63, 0xA0], [[0x43, 0x61, 0x62, 0x63]])"
  by (simp add: pack_abc_abc pack_items_abc_abc del: pack_items.simps)

subsection \<open>C1: an array inside an array, followed by a repeated string\<close>

text \<open>
  The encoder on \<open>[["abc"], "xyz", "xyz"]\<close>: the inner array's encoding joins the object
  list after \<open>"abc"\<close>, so \<open>"xyz"\<close> is entry 2 and its second occurrence is \<open>A2\<close>.
\<close>

lemma pack_rec_inner:
  "pack_rec (JArr [JStr ''abc'']) []
     = Inr ([0xD1, 0x43, 0x61, 0x62, 0x63],
            [[0x43, 0x61, 0x62, 0x63], [0xD1, 0x43, 0x61, 0x62, 0x63]])"
proof -
  have "pack_items [JStr ''abc''] [] = Inr ([0x43, 0x61, 0x62, 0x63], [[0x43, 0x61, 0x62, 0x63]])"
    by (simp add: pack_rec_abc_first del: pack_rec.simps)
  then show ?thesis
    by (simp add: dedup_def del: pack_items.simps)
qed

lemma pack_rec_xyz_first:
  "pack_rec (JStr ''xyz'') [[0x43, 0x61, 0x62, 0x63], [0xD1, 0x43, 0x61, 0x62, 0x63]]
     = Inr ([0x43, 0x78, 0x79, 0x7A],
            [[0x43, 0x61, 0x62, 0x63], [0xD1, 0x43, 0x61, 0x62, 0x63], [0x43, 0x78, 0x79, 0x7A]])"
  by (simp add: packString_xyz dedup_def)

lemma pack_rec_xyz_again:
  "pack_rec (JStr ''xyz'')
       [[0x43, 0x61, 0x62, 0x63], [0xD1, 0x43, 0x61, 0x62, 0x63], [0x43, 0x78, 0x79, 0x7A]]
     = Inr ([0xA2],
            [[0x43, 0x61, 0x62, 0x63], [0xD1, 0x43, 0x61, 0x62, 0x63], [0x43, 0x78, 0x79, 0x7A]])"
  by (simp add: packString_xyz dedup_def)

lemma pack_nested:
  "pack (JArr [JArr [JStr ''abc''], JStr ''xyz'', JStr ''xyz''])
     = Inr [0xD3, 0xD1, 0x43, 0x61, 0x62, 0x63, 0x43, 0x78, 0x79, 0x7A, 0xA2]"
proof -
  have "pack_items [JArr [JStr ''abc''], JStr ''xyz'', JStr ''xyz''] []
      = Inr ([0xD1, 0x43, 0x61, 0x62, 0x63, 0x43, 0x78, 0x79, 0x7A, 0xA2],
             [[0x43, 0x61, 0x62, 0x63], [0xD1, 0x43, 0x61, 0x62, 0x63], [0x43, 0x78, 0x79, 0x7A]])"
    by (simp add: pack_rec_inner pack_rec_xyz_first pack_rec_xyz_again del: pack_rec.simps)
  then have "pack_rec (JArr [JArr [JStr ''abc''], JStr ''xyz'', JStr ''xyz'']) []
      = Inr (dedup [0xD3, 0xD1, 0x43, 0x61, 0x62, 0x63, 0x43, 0x78, 0x79, 0x7A, 0xA2]
             [[0x43, 0x61, 0x62, 0x63], [0xD1, 0x43, 0x61, 0x62, 0x63], [0x43, 0x78, 0x79, 0x7A]])"
    by (simp del: pack_items.simps)
  then show ?thesis
    by (simp add: pack_def dedup_def del: pack_rec.simps)
qed

text \<open>The decoder's leaf branches on the bytes above, for any fuel left.\<close>

lemma unpack_rec_str3:
  "unpack_rec rt (Suc n) (0x43 # a # b # c # rest) ol
     = finish (JStr (utf8_toString [a, b, c])) rest True ol"
  by (simp add: at_def unpack_leaf_def subarray_def subarray_from_def)

lemma unpack_rec_ref2:
  "unpack_rec rt (Suc n) (0xA2 # rest) ol = finish (objectList_at ol (Some 2)) rest False ol"
  by (simp add: at_def unpack_leaf_def unpack_ref_def subarray_from_def)

lemma unpack_rec_array:
  "unpack_rec rt (Suc n) (0xD1 # rest) ol
     = (case unpack_for rt n 1 rest ol [] of
          None \<Rightarrow> None
        | Some (Inl e) \<Rightarrow> Some (Inl e)
        | Some (Inr (output, ptr, ol')) \<Rightarrow> finish (JArr output) ptr False ol')"
  "unpack_rec rt (Suc n) (0xD3 # rest) ol
     = (case unpack_for rt n 3 rest ol [] of
          None \<Rightarrow> None
        | Some (Inl e) \<Rightarrow> Some (Inl e)
        | Some (Inr (output, ptr, ol')) \<Rightarrow> finish (JArr output) ptr False ol')"
  by (simp_all add: at_def unpack_leaf_def subarray_from_def)

lemma utf8_toString_abc: "utf8_toString [0x61, 0x62, 0x63] = ''abc''"
  by (simp add: utf8_toString_def char_of_def bit_simps)

lemma utf8_toString_xyz: "utf8_toString [0x78, 0x79, 0x7A] = ''xyz''"
  by (simp add: utf8_toString_def char_of_def bit_simps)

declare unpack_rec.simps [simp del]

lemma unpack_rec_inner:
  "unpack_rec rt (Suc (Suc (Suc n))) (0xD1 # 0x43 # 0x61 # 0x62 # 0x63 # rest) []
     = Some (Inr (JArr [JStr ''abc''], rest, [JStr ''abc'']))"
  by (simp add: unpack_rec_array unpack_rec_str3 finish_def includes_value_def
      utf8_toString_abc)

lemma unpack_nested:
  "unpack rt (Suc (Suc (Suc (Suc (Suc n)))))
       [0xD3, 0xD1, 0x43, 0x61, 0x62, 0x63, 0x43, 0x78, 0x79, 0x7A, 0xA2]
     = Some (Inr (JArr [JArr [JStr ''abc''], JStr ''xyz'', JUndefined], []))"
  by (simp add: unpack_def unpack_rec_array unpack_rec_inner unpack_rec_str3 unpack_rec_ref2
      finish_def includes_value_def utf8_toString_abc utf8_toString_xyz objectList_at_def)

lemma unpack_rec_no_fuel: "unpack_rec rt 0 data ol = None"
  by (simp add: unpack_rec.simps)

lemma unpack_nested_short_fuel:
  assumes "k < 5"
  shows "unpack rt k [0xD3, 0xD1, 0x43, 0x61, 0x62, 0x63, 0x43, 0x78, 0x79, 0x7A, 0xA2] = None"
proof -
  from assms consider "k = 0" | "k = Suc 0" | "k = Suc (Suc 0)" | "k = Suc (Suc (Suc 0))"
    | "k = Suc (Suc (Suc (Suc 0)))"
    by linarith
  then show ?thesis
  proof cases
    case 1
    then show ?thesis by (simp add: unpack_def unpack_rec_no_fuel)
  next
    case 2
    then show ?thesis by (simp add: unpack_def unpack_rec_array unpack_rec_no_fuel)
  next
    case 3
    then show ?thesis by (simp add: unpack_def unpack_rec_array unpack_rec_no_fuel)
  next
    case 4
    then show ?thesis by (simp add: unpack_def unpack_rec_array unpack_rec_no_fuel)
  next
    case 5
    then show ?thesis
      by (simp add: unpack_def unpack_rec_array unpack_rec_str3 unpack_rec_no_fuel finish_def
          includes_value_def)
  qed
qed

text \<open>
  C1 fails on the code. The encoder puts the encoding of every non-empty array and map
  on its object list; the decoder leaves arrays and maps off its list. After an array
  or map the two lists are out of step, and a later back-reference is resolved against
  the wrong index. For \<open>v = [["abc"], "xyz", "xyz"]\<close> the encoder emits \<open>A2\<close> for the
  second \<open>"xyz"\<close> (entry 2, after \<open>"abc"\<close> and \<open>["abc"]\<close>), and the decoder, whose
  list holds \<open>"abc"\<close> and \<open>"xyz"\<close> only, reads entry 2 as \<open>undefined\<close>: whatever fuel
  the decoder is given, it does not return \<open>v\<close>.
\<close>

theorem opack_roundtrip_nested_array:
  "pack (JArr [JArr [JStr ''abc''], JStr ''xyz'', JStr ''xyz''])
     = Inr [0xD3, 0xD1, 0x43, 0x61, 0x62, 0x63, 0x43, 0x78, 0x79, 0x7A, 0xA2]
   \<and> unpack rt (Suc (Suc (Suc (Suc (Suc n)))))
         [0xD3, 0xD1, 0x43, 0x61, 0x62, 0x63, 0x43, 0x78, 0x79, 0x7A, 0xA2]
       = Some (Inr (JArr [JArr [JStr ''abc''], JStr ''xyz'', JUndefined], []))
   \<and> unpack rt k [0xD3, 0xD1, 0x43, 0x61, 0x62, 0x63, 0x43, 0x78, 0x79, 0x7A, 0xA2]
       \<noteq> Some (Inr (JArr [JArr [JStr ''abc''], JStr ''xyz'', JStr ''xyz''], []))"
proof -
  let ?bs = "[0xD3, 0xD1, 0x43, 0x61, 0x62, 0x63, 0x43, 0x78, 0x79, 0x7A, 0xA2] :: bytes"
  have "unpack rt k ?bs \<noteq> Some (Inr (JArr [JArr [JStr ''abc''], JStr ''xyz'', JStr ''xyz''], []))"
  proof (cases "k < 5")
    case True
    then show ?thesis by (simp add: unpack_nested_short_fuel)
  next
    case False
    then have "k = Suc (Suc (Suc (Suc (Suc (k - 5)))))" by arith
    then obtain m where "k = Suc (Suc (Suc (Suc (Suc m))))" ..
    then show ?thesis by (simp add: unpack_nested)
  qed
  then show ?thesis
    by (simp add: pack_nested unpack_nested)
qed

section \<open>The dispatcher\<close>

subsection \<open>Connection loss\<close>

lemma reject_all_fields':
  "pendingRequests (reject_all es s) = pendingRequests s
   \<and> pendingAuth (reject_all es s) = pendingAuth s
   \<and> xid (reject_all es s) = xid s
   \<and> exchanges (reject_all es s) = exchanges s
   \<and> connection (reject_all es s) = connection s"
  by (induction es arbitrary: s) (auto simp: reject_def clearTimeout_def)

lemmas reject_all_fields = reject_all_fields' [THEN conjunct1]
  reject_all_fields' [THEN conjunct2, THEN conjunct1]
  reject_all_fields' [THEN conjunct2, THEN conjunct2, THEN conjunct1]
  reject_all_fields' [THEN conjunct2, THEN conjunct2, THEN conjunct2, THEN conjunct1]
  reject_all_fields' [THEN conjunct2, THEN conjunct2, THEN conjunct2, THEN conjunct2]

lemma reject_all_settled:
  "settled (reject_all es s) = settled s @ map (\<lambda>(k, p). (p, Reject Error_ConnectionLost)) es"
  by (induction es arbitrary: s) (auto simp: reject_def clearTimeout_def)

lemma reject_all_timers:
  "map_of (timers (reject_all es s)) q =
     (if q \<in> snd ` set es then None else map_of (timers s) q)"
proof (induction es arbitrary: s)
  case Nil
  show ?case by simp
next
  case (Cons e es)
  obtain k p where e: "e = (k, p)" by (cases e)
  show ?case
    unfolding e reject_all.simps Cons.IH
    by (auto simp: reject_def clearTimeout_def delete_conv' image_iff)
qed

lemma connectionLost_settled:
  "settled (connectionLost s)
     = settled s @ map (\<lambda>(k, p). (p, Reject Error_ConnectionLost)) (pendingRequests s @ pendingAuth s)"
  by (simp add: connectionLost_def Let_def reject_all_settled reject_all_fields)

lemma connectionLost_timers:
  "map_of (timers (connectionLost s)) q =
     (if q \<in> snd ` set (pendingRequests s @ pendingAuth s) then None else map_of (timers s) q)"
  by (auto simp: connectionLost_def Let_def reject_all_timers reject_all_fields image_Un)

lemma connectionLost_fields:
  "pendingRequests (connectionLost s) = []"
  "pendingAuth (connectionLost s) = []"
  "xid (connectionLost s) = xid s"
  "exchanges (connectionLost s) = exchanges s"
  "connection (connectionLost s) = connection s"
  by (simp_all add: connectionLost_def Let_def reject_all_fields)

lemma calls_on_append: "calls_on p (xs @ ys) = calls_on p xs @ calls_on p ys"
  by (simp add: calls_on_def)

lemma calls_on_rejections_absent:
  "p \<notin> snd ` set es \<Longrightarrow> calls_on p (map (\<lambda>(k, q). (q, c)) es) = []"
  by (induction es) (auto simp: calls_on_def)


lemma outcome_calls_on:
  "outcome s p = (case calls_on p (settled s) of [] \<Rightarrow> None | c # cs \<Rightarrow> Some c)"
proof -
  have "map_of xs p = (case calls_on p xs of [] \<Rightarrow> None | c # cs \<Rightarrow> Some c)" for xs :: "(nat \<times> completion) list"
    by (induction xs) (auto simp: calls_on_def)
  then show ?thesis by (simp add: outcome_def)
qed

subsection \<open>The effect of one event\<close>

lemma send_packed_shape:
  "pendingRequests (send_packed lib q ft d s) = pendingRequests s
   \<and> pendingAuth (send_packed lib q ft d s) = pendingAuth s
   \<and> timers (send_packed lib q ft d s) = timers s
   \<and> exchanges (send_packed lib q ft d s) = exchanges s
   \<and> xid (send_packed lib q ft d s) = xid s
   \<and> (settled (send_packed lib q ft d s) = settled s
        \<or> (\<exists>e. settled (send_packed lib q ft d s) = settled s @ [(q, Reject e)]))"
  by (simp add: send_packed_def reject_def split: sum.splits prod.splits)

lemma handleAuthFrame_shape:
  assumes "handleAuthFrame rt fuel ft payload s = Some (Inr s')"
  shows "s' = s
    \<or> (\<exists>k q v. map_of (pendingAuth s) k = Some q
          \<and> s' = resolve q v ((clearTimeout q s)\<lparr>pendingAuth := AList.delete k (pendingAuth s)\<rparr>))"
proof (cases "length payload = 0")
  case True
  with assms show ?thesis by (simp add: handleAuthFrame_def)
next
  case False
  with assms obtain data remaining where u: "unpack rt fuel payload = Some (Inr (data, remaining))"
    by (auto simp: handleAuthFrame_def split: option.splits sum.splits)
  show ?thesis
  proof (cases "map_of (pendingAuth s) ft")
    case None
    with assms False u show ?thesis by (simp add: handleAuthFrame_def)
  next
    case (Some q)
    with assms False u have
      "s' = resolve q data ((clearTimeout q s)\<lparr>pendingAuth := AList.delete ft (pendingAuth s)\<rparr>)"
      by (simp add: handleAuthFrame_def)
    with Some show ?thesis by blast
  qed
qed

lemma handleOpack_shape:
  assumes "handleOpack ft data s = Inr s'"
  shows "s' = s
    \<or> (\<exists>k q v. map_of (pendingRequests s) k = Some q
          \<and> s' = resolve q v
                ((clearTimeout q s)\<lparr>pendingRequests := AList.delete k (pendingRequests s)\<rparr>))"
proof (cases "property data ''_t''")
  case (Inl e)
  with assms show ?thesis by (simp add: handleOpack_def MessageType_Event_def MessageType_Response_def)
next
  case t: (Inr messageType)
  show ?thesis
  proof (cases "messageType \<noteq> JNum (Integer MessageType_Event)
      \<and> messageType = JNum (Integer MessageType_Response)")
    case False
    with assms t show ?thesis by (auto simp: handleOpack_def MessageType_Event_def MessageType_Response_def split: if_splits)
  next
    case True
    note resp = this
    show ?thesis
    proof (cases "property data ''_x''")
      case (Inl e)
      with assms t resp show ?thesis by (simp add: handleOpack_def MessageType_Event_def MessageType_Response_def)
    next
      case x: (Inr x)
      show ?thesis
      proof (cases "request_key x")
        case None
        with assms t resp x show ?thesis by (simp add: handleOpack_def MessageType_Event_def MessageType_Response_def)
      next
        case k: (Some k)
        show ?thesis
        proof (cases "map_of (pendingRequests s) k")
          case None
          with assms t resp x k show ?thesis by (simp add: handleOpack_def MessageType_Event_def MessageType_Response_def)
        next
          case (Some q)
          with assms t resp x k have "s' = resolve q data
              ((clearTimeout q s)\<lparr>pendingRequests := AList.delete k (pendingRequests s)\<rparr>)"
            by (simp add: handleOpack_def MessageType_Event_def MessageType_Response_def)
          with Some show ?thesis by blast
        qed
      qed
    qed
  qed
qed

lemma frameReceived_shape:
  assumes "frameReceived rt fuel ft payload s = Some (Inr s')"
  shows "s' = s
    \<or> (\<exists>k q v. map_of (pendingAuth s) k = Some q
          \<and> s' = resolve q v ((clearTimeout q s)\<lparr>pendingAuth := AList.delete k (pendingAuth s)\<rparr>))
    \<or> (\<exists>k q v. map_of (pendingRequests s) k = Some q
          \<and> s' = resolve q v
                ((clearTimeout q s)\<lparr>pendingRequests := AList.delete k (pendingRequests s)\<rparr>))"
proof -
  consider (auth) "handleAuthFrame rt fuel ft payload s = Some (Inr s')"
    | (opack) data where "handleOpack ft data s = Inr s'"
    | (none) "s' = s"
  proof (cases "ft \<ge> PS_Start \<and> ft \<le> PV_Next")
    case True
    with assms have "handleAuthFrame rt fuel ft payload s = Some (Inr s')"
      by (simp add: frameReceived_def)
    then show ?thesis by (rule auth)
  next
    case False
    note notauth = this
    show ?thesis
    proof (cases "(ft = E_OPACK \<or> ft = U_OPACK \<or> ft = P_OPACK) \<and> length payload \<noteq> 0")
      case False
      with assms notauth have "s' = s" by (auto simp: frameReceived_def split: if_splits)
      then show ?thesis by (rule none)
    next
      case True
      with assms notauth obtain v remaining where "unpack rt fuel payload = Some (Inr (v, remaining))"
        by (auto simp: frameReceived_def split: option.splits sum.splits)
      with assms notauth True have "handleOpack ft v s = Inr s'"
        by (auto simp: frameReceived_def)
      then show ?thesis by (rule opack)
    qed
  qed
  then show ?thesis
  proof cases
    case auth
    from handleAuthFrame_shape [OF this] show ?thesis by blast
  next
    case opack
    from handleOpack_shape [OF this] show ?thesis by blast
  next
    case none
    then show ?thesis by simp
  qed
qed

lemma sendEvent_shape:
  "pendingRequests (snd (sendEvent lib i c s)) = pendingRequests s
   \<and> pendingAuth (snd (sendEvent lib i c s)) = pendingAuth s
   \<and> timers (snd (sendEvent lib i c s)) = timers s
   \<and> settled (snd (sendEvent lib i c s)) = settled s
   \<and> exchanges (snd (sendEvent lib i c s)) = exchanges s"
  by (simp add: sendEvent_def Let_def split: sum.splits prod.splits)

lemma exchangeAuth_shape:
  "exchanges (exchangeAuth lib ft d s) = exchanges s + 1
   \<and> pendingRequests (exchangeAuth lib ft d s) = pendingRequests s
   \<and> pendingAuth (exchangeAuth lib ft d s) = AList.update (responseType ft) (exchanges s) (pendingAuth s)
   \<and> timers (exchangeAuth lib ft d s)
       = AList.update (exchanges s) (AuthTimer (responseType ft) ft) (timers s)
   \<and> (settled (exchangeAuth lib ft d s) = settled s
        \<or> (\<exists>e. settled (exchangeAuth lib ft d s) = settled s @ [(exchanges s, Reject e)]))"
  using send_packed_shape [of lib "exchanges s" ft d
      "s\<lparr>exchanges := exchanges s + 1,
         timers := AList.update (exchanges s) (AuthTimer (responseType ft) ft) (timers s),
         pendingAuth := AList.update (responseType ft) (exchanges s) (pendingAuth s)\<rparr>"]
  by (simp add: exchangeAuth_def Let_def)

lemma exchangeOpack_shape:
  "exchanges (exchangeOpack lib d ft s) = exchanges s + 1
   \<and> pendingAuth (exchangeOpack lib d ft s) = pendingAuth s
   \<and> pendingRequests (exchangeOpack lib d ft s) = AList.update (xid s) (exchanges s) (pendingRequests s)
   \<and> timers (exchangeOpack lib d ft s) = AList.update (exchanges s) (OpackTimer (xid s)) (timers s)
   \<and> xid (exchangeOpack lib d ft s) = increment (xid s)
   \<and> (settled (exchangeOpack lib d ft s) = settled s
        \<or> (\<exists>e. settled (exchangeOpack lib d ft s) = settled s @ [(exchanges s, Reject e)]))"
  using send_packed_shape [of lib "exchanges s" ft
      "JObj (AList.update ''_x'' (JNum (Integer (int (xid s)))) d)"
      "s\<lparr>xid := increment (xid s), exchanges := exchanges s + 1,
         timers := AList.update (exchanges s) (OpackTimer (xid s)) (timers s),
         pendingRequests := AList.update (xid s) (exchanges s) (pendingRequests s)\<rparr>"]
  by (simp add: exchangeOpack_def Let_def)

lemma step_shapes:
  assumes "step rt fuel lib e s = Some s'"
  obtains
    (same) "pendingRequests s' = pendingRequests s" "pendingAuth s' = pendingAuth s"
      "timers s' = timers s" "settled s' = settled s" "exchanges s' = exchanges s"
      "\<And>q. e = TimerFired q \<Longrightarrow> map_of (timers s) q = None"
  | (answer_auth) k q v where "map_of (pendingAuth s) k = Some q"
      "pendingAuth s' = AList.delete k (pendingAuth s)" "pendingRequests s' = pendingRequests s"
      "timers s' = AList.delete q (timers s)" "settled s' = settled s @ [(q, Resolve v)]"
      "exchanges s' = exchanges s" "\<And>q. e \<noteq> TimerFired q"
  | (answer_opack) k q v where "map_of (pendingRequests s) k = Some q"
      "pendingRequests s' = AList.delete k (pendingRequests s)" "pendingAuth s' = pendingAuth s"
      "timers s' = AList.delete q (timers s)" "settled s' = settled s @ [(q, Resolve v)]"
      "exchanges s' = exchanges s" "\<And>q. e \<noteq> TimerFired q"
  | (lost) "pendingRequests s' = []" "pendingAuth s' = []"
      "settled s' = settled s
         @ map (\<lambda>(k, p). (p, Reject Error_ConnectionLost)) (pendingRequests s @ pendingAuth s)"
      "\<And>q. map_of (timers s') q
         = (if q \<in> snd ` set (pendingRequests s @ pendingAuth s) then None else map_of (timers s) q)"
      "exchanges s' = exchanges s" "\<And>q. e \<noteq> TimerFired q"
  | (timer_auth) q k f where "e = TimerFired q" "map_of (timers s) q = Some (AuthTimer k f)"
      "pendingAuth s' = AList.delete k (pendingAuth s)" "pendingRequests s' = pendingRequests s"
      "timers s' = AList.delete q (timers s)"
      "settled s' = settled s @ [(q, Reject (Error_AuthTimeout f))]" "exchanges s' = exchanges s"
  | (timer_opack) q x where "e = TimerFired q" "map_of (timers s) q = Some (OpackTimer x)"
      "pendingRequests s' = AList.delete x (pendingRequests s)" "pendingAuth s' = pendingAuth s"
      "timers s' = AList.delete q (timers s)"
      "settled s' = settled s @ [(q, Reject (Error_OpackTimeout x))]" "exchanges s' = exchanges s"
  | (new_auth) k t cs where "exchanges s' = exchanges s + 1"
      "pendingRequests s' = pendingRequests s"
      "pendingAuth s' = AList.update k (exchanges s) (pendingAuth s)"
      "timers s' = AList.update (exchanges s) t (timers s)"
      "settled s' = settled s @ cs" "fst ` set cs \<subseteq> {exchanges s}" "\<And>q. e \<noteq> TimerFired q"
  | (new_opack) k t cs where "exchanges s' = exchanges s + 1"
      "pendingAuth s' = pendingAuth s"
      "pendingRequests s' = AList.update k (exchanges s) (pendingRequests s)"
      "timers s' = AList.update (exchanges s) t (timers s)"
      "settled s' = settled s @ cs" "fst ` set cs \<subseteq> {exchanges s}" "\<And>q. e \<noteq> TimerFired q"
proof (cases e)
  case (FrameReceived ft payload)
  show ?thesis
  proof (cases "frameReceived rt fuel ft payload s")
    case None
    with assms FrameReceived show ?thesis by simp
  next
    case (Some r)
    show ?thesis
    proof (cases r)
      case (Inl err)
      with assms FrameReceived Some have "s' = s" by simp
      with FrameReceived show ?thesis by (intro same) simp_all
    next
      case (Inr s'')
      with assms FrameReceived Some have fr: "frameReceived rt fuel ft payload s = Some (Inr s')"
        by simp
      from frameReceived_shape [OF fr] consider "s' = s"
        | k q v where "map_of (pendingAuth s) k = Some q"
            "s' = resolve q v ((clearTimeout q s)\<lparr>pendingAuth := AList.delete k (pendingAuth s)\<rparr>)"
        | k q v where "map_of (pendingRequests s) k = Some q"
            "s' = resolve q v
               ((clearTimeout q s)\<lparr>pendingRequests := AList.delete k (pendingRequests s)\<rparr>)"
        by blast
      then show ?thesis
      proof cases
        case 1
        with FrameReceived show ?thesis by (intro same) simp_all
      next
        case 2
        with FrameReceived show ?thesis
          by (intro answer_auth [of k q v]) (simp_all add: resolve_def clearTimeout_def)
      next
        case 3
        with FrameReceived show ?thesis
          by (intro answer_opack [of k q v]) (simp_all add: resolve_def clearTimeout_def)
      qed
    qed
  qed
next
  case ConnectionLost
  with assms have "s' = connectionLost s" by simp
  with ConnectionLost show ?thesis
    by (intro lost) (simp_all add: connectionLost_fields connectionLost_settled
        connectionLost_timers del: set_append)
next
  case SocketClosed
  with assms have "s' = connectionLost (s\<lparr>connection := (connection s)\<lparr>connected := False\<rparr>\<rparr>)"
    by simp
  with SocketClosed show ?thesis
    by (intro lost) (simp_all add: connectionLost_fields connectionLost_settled
        connectionLost_timers del: set_append)
next
  case (TimerFired q)
  with assms have s': "s' = timerFired q s" by simp
  show ?thesis
  proof (cases "map_of (timers s) q")
    case None
    with s' TimerFired show ?thesis by (intro same) (simp_all add: timerFired_def)
  next
    case (Some t)
    show ?thesis
    proof (cases t)
      case (AuthTimer k f)
      with s' Some TimerFired show ?thesis
        by (intro timer_auth [of q k f]) (simp_all add: timerFired_def reject_def)
    next
      case (OpackTimer x)
      with s' Some TimerFired show ?thesis
        by (intro timer_opack [of q x]) (simp_all add: timerFired_def reject_def)
    qed
  qed
next
  case (ExchangeAuth ft d)
  with assms have s': "s' = exchangeAuth lib ft d s" by simp
  from exchangeAuth_shape [of lib ft d s] s'
  obtain cs where "settled s' = settled s @ cs" "fst ` set cs \<subseteq> {exchanges s}"
    by (metis (no_types, lifting) append_Nil2 empty_set fst_conv image_empty image_insert
        list.simps(15) subset_refl empty_subsetI)
  with exchangeAuth_shape [of lib ft d s] s' ExchangeAuth show ?thesis
    by (intro new_auth [of "responseType ft" "AuthTimer (responseType ft) ft" cs]) simp_all
next
  case (ExchangeOpack d ft)
  with assms have s': "s' = exchangeOpack lib d ft s" by simp
  from exchangeOpack_shape [of lib d ft s] s'
  obtain cs where "settled s' = settled s @ cs" "fst ` set cs \<subseteq> {exchanges s}"
    by (metis (no_types, lifting) append_Nil2 empty_set fst_conv image_empty image_insert
        list.simps(15) subset_refl empty_subsetI)
  with exchangeOpack_shape [of lib d ft s] s' ExchangeOpack show ?thesis
    by (intro new_opack [of "xid s" "OpackTimer (xid s)" cs]) simp_all
next
  case (SendCommand i c)
  let ?d = "[(''_i'', JStr i), (''_t'', JNum (Integer MessageType_Request)), (''_c'', c)]"
  from SendCommand assms have s': "s' = exchangeOpack lib ?d E_OPACK s"
    by (simp add: sendCommand_def)
  from exchangeOpack_shape [of lib ?d E_OPACK s] s'
  obtain cs where "settled s' = settled s @ cs" "fst ` set cs \<subseteq> {exchanges s}"
    by (metis (no_types, lifting) append_Nil2 empty_set fst_conv image_empty image_insert
        list.simps(15) subset_refl empty_subsetI)
  with exchangeOpack_shape [of lib ?d E_OPACK s] s' SendCommand show ?thesis
    by (intro new_opack [of "xid s" "OpackTimer (xid s)" cs]) simp_all
next
  case (SendEvent i c)
  with assms have "s' = snd (sendEvent lib i c s)" by simp
  with sendEvent_shape [of lib i c s] SendEvent show ?thesis by (intro same) simp_all
next
  case Connected
  with assms show ?thesis by (intro same) auto
next
  case Closed
  with assms show ?thesis by (intro same) auto
next
  case (EnableEncryption ok ik)
  with assms show ?thesis by (intro same) auto
next
  case Decrypted
  with assms show ?thesis by (intro same) auto
qed

subsection \<open>Following one exchange through a run\<close>

lemma set_delete_iff: "(k', v) \<in> set (AList.delete k al) \<longleftrightarrow> k' \<noteq> k \<and> (k', v) \<in> set al"
  by (auto simp: AList.delete_eq)

lemma snd_set_delete: "p \<notin> snd ` set al \<Longrightarrow> p \<notin> snd ` set (AList.delete k al)"
  by (auto simp: AList.delete_eq)

lemma set_update_cases:
  "(k', v') \<in> set (AList.update k v al) \<Longrightarrow> (k' = k \<and> v' = v) \<or> (k', v') \<in> set al"
  by (induction al) (auto split: if_splits)

lemma snd_set_update:
  "p \<notin> snd ` set al \<Longrightarrow> p \<noteq> v \<Longrightarrow> p \<notin> snd ` set (AList.update k v al)"
  using set_update_cases [of _ p k v al] by force

lemma set_update_distinct:
  "distinct (map fst al) \<Longrightarrow>
     (k', v') \<in> set (AList.update k v al) \<longleftrightarrow> (k' = k \<and> v' = v) \<or> (k' \<noteq> k \<and> (k', v') \<in> set al)"
  by (induction al) (auto split: if_splits simp: rev_image_eqI)

lemma calls_on_snoc:
  "calls_on p (xs @ [(q, c)]) = (if q = p then calls_on p xs @ [c] else calls_on p xs)"
  by (simp add: calls_on_def)

lemma calls_on_others: "fst ` set cs \<subseteq> {x} \<Longrightarrow> x \<noteq> p \<Longrightarrow> calls_on p cs = []"
  by (induction cs) (auto simp: calls_on_def)

lemma map_of_in_snd: "map_of al k = Some q \<Longrightarrow> q \<in> snd ` set al"
  by (force dest: map_of_SomeD)

lemma detached_step:
  assumes d: "detached p rType ft fired s" and st: "step rt fuel lib e s = Some s'"
  shows "detached p rType ft (fired \<or> e = TimerFired p) s'"
  using st
proof (cases rule: step_shapes)
  case same
  with d show ?thesis by (auto simp: detached_def split: if_splits)
next
  case (answer_auth k q v)
  from answer_auth(1) have "q \<in> snd ` set (pendingAuth s)" by (rule map_of_in_snd)
  with d have "q \<noteq> p" by (auto simp: detached_def)
  with d answer_auth show ?thesis
    by (auto simp: detached_def calls_on_snoc delete_conv' snd_set_delete split: if_splits)
next
  case (answer_opack k q v)
  from answer_opack(1) have "q \<in> snd ` set (pendingRequests s)" by (rule map_of_in_snd)
  with d have "q \<noteq> p" by (auto simp: detached_def)
  with d answer_opack show ?thesis
    by (auto simp: detached_def calls_on_snoc delete_conv' snd_set_delete split: if_splits)
next
  case lost
  from d have "p \<notin> snd ` set (pendingRequests s @ pendingAuth s)"
    by (auto simp: detached_def)
  with d lost show ?thesis
    by (simp add: detached_def calls_on_append calls_on_rejections_absent del: set_append)
next
  case (timer_auth q k f)
  show ?thesis
  proof (cases "q = p")
    case True
    with d timer_auth show ?thesis
      by (auto simp: detached_def calls_on_snoc delete_conv' snd_set_delete split: if_splits)
  next
    case False
    with d timer_auth show ?thesis
      by (auto simp: detached_def calls_on_snoc delete_conv' snd_set_delete split: if_splits)
  qed
next
  case (timer_opack q x)
  with d have "q \<noteq> p" by (auto simp: detached_def split: if_splits)
  with d timer_opack show ?thesis
    by (auto simp: detached_def calls_on_snoc delete_conv' snd_set_delete split: if_splits)
next
  case (new_auth k t cs)
  from d have lt: "p < exchanges s" by (simp add: detached_def)
  then have "calls_on p cs = []" using new_auth(6) by (intro calls_on_others [of cs "exchanges s"]) auto
  with d new_auth lt show ?thesis
    by (auto simp: detached_def calls_on_append update_conv' snd_set_update split: if_splits)
next
  case (new_opack k t cs)
  from d have lt: "p < exchanges s" by (simp add: detached_def)
  then have "calls_on p cs = []" using new_opack(6) by (intro calls_on_others [of cs "exchanges s"]) auto
  with d new_opack lt show ?thesis
    by (auto simp: detached_def calls_on_append update_conv' snd_set_update split: if_splits)
qed

lemma detached_run:
  "detached p rType ft fired s \<Longrightarrow> run rt fuel lib es s = Some s' \<Longrightarrow>
     detached p rType ft (fired \<or> TimerFired p \<in> set es) s'"
proof (induction es arbitrary: s fired)
  case Nil
  then show ?case by simp
next
  case (Cons e es)
  from Cons.prems(2) obtain s1 where s1: "step rt fuel lib e s = Some s1"
    and r: "run rt fuel lib es s1 = Some s'"
    by (auto split: option.splits)
  from detached_step [OF Cons.prems(1) s1]
  have "detached p rType ft (fired \<or> e = TimerFired p) s1" .
  from Cons.IH [OF this r] show ?case
    by (simp add: disj_ac eq_commute)
qed

lemma calls_on_rejections_present:
  "p \<in> snd ` set es \<Longrightarrow> calls_on p (map (\<lambda>(k, q). (q, c)) es) \<noteq> []"
  by (induction es) (auto simp: calls_on_def)

lemma attached_step:
  assumes a: "attached p rType ft s" and st: "step rt fuel lib e s = Some s'"
  shows "attached p rType ft s'"
  using st
proof (cases rule: step_shapes)
  case same
  with a show ?thesis by (auto simp: attached_def)
next
  case (answer_auth k q v)
  with a show ?thesis
    by (auto simp: attached_def calls_on_snoc delete_conv' set_delete_iff distinct_delete
        split: if_splits)
next
  case (answer_opack k q v)
  from answer_opack(1) have "q \<in> snd ` set (pendingRequests s)" by (rule map_of_in_snd)
  with a have "q \<noteq> p" by (auto simp: attached_def)
  with a answer_opack show ?thesis
    by (auto simp: attached_def calls_on_snoc delete_conv' snd_set_delete split: if_splits)
next
  case lost
  show ?thesis
  proof (cases "p \<in> snd ` set (pendingRequests s @ pendingAuth s)")
    case True
    then have "calls_on p (map (\<lambda>(k, p). (p, Reject Error_ConnectionLost))
        (pendingRequests s @ pendingAuth s)) \<noteq> []"
      by (rule calls_on_rejections_present)
    with a lost show ?thesis
      by (simp add: attached_def calls_on_append del: set_append map_append)
  next
    case False
    with a lost show ?thesis
      by (simp add: attached_def calls_on_append calls_on_rejections_absent
          del: set_append map_append)
  qed
next
  case (timer_auth q k f)
  with a show ?thesis
    by (auto simp: attached_def calls_on_snoc delete_conv' set_delete_iff distinct_delete
        split: if_splits)
next
  case (timer_opack q x)
  with a show ?thesis
    by (auto simp: attached_def calls_on_snoc delete_conv' snd_set_delete split: if_splits)
next
  case (new_auth k t cs)
  from a have lt: "p < exchanges s" by (simp add: attached_def)
  then have c: "calls_on p cs = []"
    using new_auth(6) by (intro calls_on_others [of cs "exchanges s"]) auto
  have "k' = rType" if "(k', p) \<in> set (AList.update k (exchanges s) (pendingAuth s))" for k'
    using set_update_cases [OF that] a lt by (auto simp: attached_def)
  with a new_auth lt c show ?thesis
    by (auto simp: attached_def calls_on_append update_conv' distinct_update)
next
  case (new_opack k t cs)
  from a have lt: "p < exchanges s" by (simp add: attached_def)
  then have c: "calls_on p cs = []"
    using new_opack(6) by (intro calls_on_others [of cs "exchanges s"]) auto
  with a new_opack lt show ?thesis
    by (auto simp: attached_def calls_on_append update_conv' snd_set_update)
qed

lemma attached_run:
  "attached p rType ft s \<Longrightarrow> run rt fuel lib es s = Some s' \<Longrightarrow> attached p rType ft s'"
proof (induction es arbitrary: s)
  case Nil
  then show ?case by simp
next
  case (Cons e es)
  from Cons.prems(2) obtain s1 where s1: "step rt fuel lib e s = Some s1"
    and r: "run rt fuel lib es s1 = Some s'"
    by (auto split: option.splits)
  from Cons.IH [OF attached_step [OF Cons.prems(1) s1] r] show ?case .
qed

subsection \<open>The tables in every reachable state\<close>

lemma tables_ok_iff:
  "tables_ok s \<longleftrightarrow>
     distinct (map fst (pendingRequests s)) \<and> distinct (map fst (pendingAuth s))
     \<and> distinct (map snd (pendingRequests s)) \<and> distinct (map snd (pendingAuth s))
     \<and> (\<forall>k k' p. (k, p) \<in> set (pendingRequests s) \<longrightarrow> (k', p) \<notin> set (pendingAuth s))
     \<and> (\<forall>k p. (k, p) \<in> set (pendingRequests s) \<longrightarrow> p < exchanges s)
     \<and> (\<forall>k p. (k, p) \<in> set (pendingAuth s) \<longrightarrow> p < exchanges s)"
proof -
  have dj: "snd ` set xs \<inter> snd ` set ys = {} \<longleftrightarrow> (\<forall>k k' p. (k, p) \<in> set xs \<longrightarrow> (k', p) \<notin> set ys)"
    for xs ys :: "(nat \<times> nat) list"
    by force
  have bd: "list_all (\<lambda>(k, p). p < n) (xs @ ys) \<longleftrightarrow>
      (\<forall>k p. (k, p) \<in> set xs \<longrightarrow> p < n) \<and> (\<forall>k p. (k, p) \<in> set ys \<longrightarrow> p < n)"
    for xs ys :: "(nat \<times> nat) list" and n
    by (auto simp: list_all_iff)
  show ?thesis
    unfolding tables_ok_def bd map_append distinct_append set_map dj by blast
qed

lemma distinct_snd_delete: "distinct (map snd al) \<Longrightarrow> distinct (map snd (AList.delete k al))"
  by (simp add: AList.delete_eq distinct_map_filter)

lemma distinct_snd_update:
  "distinct (map snd al) \<Longrightarrow> \<forall>k'. (k', v) \<notin> set al \<Longrightarrow>
     distinct (map snd (AList.update k v al))"
proof (induction al)
  case Nil
  then show ?case by simp
next
  case (Cons e al)
  obtain k0 v0 where e: "e = (k0, v0)" by (cases e)
  show ?case
  proof (cases "k0 = k")
    case True
    with Cons.prems e show ?thesis by (force simp: image_iff)
  next
    case False
    have "v0 \<notin> snd ` set (AList.update k v al)"
    proof
      assume "v0 \<in> snd ` set (AList.update k v al)"
      then obtain k1 where "(k1, v0) \<in> set (AList.update k v al)" by force
      from set_update_cases [OF this] Cons.prems e show False by (force simp: image_iff)
    qed
    with False e Cons show ?thesis by simp
  qed
qed

lemma tables_ok_delete_auth:
  assumes "tables_ok s" "pendingAuth s' = AList.delete k (pendingAuth s)"
    "pendingRequests s' = pendingRequests s" "exchanges s' = exchanges s"
  shows "tables_ok s'"
  using assms unfolding tables_ok_iff
  by (simp add: distinct_delete distinct_snd_delete set_delete_iff) blast

lemma tables_ok_delete_opack:
  assumes "tables_ok s" "pendingRequests s' = AList.delete k (pendingRequests s)"
    "pendingAuth s' = pendingAuth s" "exchanges s' = exchanges s"
  shows "tables_ok s'"
  using assms unfolding tables_ok_iff
  by (simp add: distinct_delete distinct_snd_delete set_delete_iff) blast

lemma tables_ok_update_auth:
  assumes t: "tables_ok s" and u: "pendingAuth s' = AList.update k (exchanges s) (pendingAuth s)"
    "pendingRequests s' = pendingRequests s" "exchanges s' = exchanges s + 1"
  shows "tables_ok s'"
proof -
  from t have ba: "\<And>k p. (k, p) \<in> set (pendingAuth s) \<Longrightarrow> p < exchanges s"
    and br: "\<And>k p. (k, p) \<in> set (pendingRequests s) \<Longrightarrow> p < exchanges s"
    and dj: "\<And>k k' p. (k, p) \<in> set (pendingRequests s) \<Longrightarrow> (k', p) \<notin> set (pendingAuth s)"
    unfolding tables_ok_iff by blast+
  have fa: "\<forall>k'. (k', exchanges s) \<notin> set (pendingAuth s)"
    using ba by fastforce
  have m: "p = exchanges s \<or> (k', p) \<in> set (pendingAuth s)"
    if "(k', p) \<in> set (pendingAuth s')" for k' p
    using set_update_cases [of k' p k "exchanges s" "pendingAuth s"] that u by auto
  from t u fa have "distinct (map fst (pendingRequests s'))" "distinct (map fst (pendingAuth s'))"
    "distinct (map snd (pendingRequests s'))" "distinct (map snd (pendingAuth s'))"
    unfolding tables_ok_iff by (simp_all add: distinct_update distinct_snd_update)
  moreover have "\<forall>k k' p. (k, p) \<in> set (pendingRequests s') \<longrightarrow> (k', p) \<notin> set (pendingAuth s')"
  proof (intro allI impI notI)
    fix k0 k' p
    assume r: "(k0, p) \<in> set (pendingRequests s')" and a: "(k', p) \<in> set (pendingAuth s')"
    from r u have r': "(k0, p) \<in> set (pendingRequests s)" by simp
    from m [OF a] show False
    proof
      assume "p = exchanges s"
      with br [OF r'] show False by simp
    next
      assume "(k', p) \<in> set (pendingAuth s)"
      with dj [OF r'] show False by simp
    qed
  qed
  moreover have "\<forall>k p. (k, p) \<in> set (pendingRequests s') \<longrightarrow> p < exchanges s'"
    using br u by (auto simp: less_Suc_eq)
  moreover have "\<forall>k p. (k, p) \<in> set (pendingAuth s') \<longrightarrow> p < exchanges s'"
  proof (intro allI impI)
    fix k' p
    assume "(k', p) \<in> set (pendingAuth s')"
    from m [OF this] ba u(3) show "p < exchanges s'" by (auto simp: less_Suc_eq)
  qed
  ultimately show ?thesis unfolding tables_ok_iff by blast
qed

lemma tables_ok_update_opack:
  assumes t: "tables_ok s"
    and u: "pendingRequests s' = AList.update k (exchanges s) (pendingRequests s)"
    "pendingAuth s' = pendingAuth s" "exchanges s' = exchanges s + 1"
  shows "tables_ok s'"
proof -
  from t have ba: "\<And>k p. (k, p) \<in> set (pendingAuth s) \<Longrightarrow> p < exchanges s"
    and br: "\<And>k p. (k, p) \<in> set (pendingRequests s) \<Longrightarrow> p < exchanges s"
    and dj: "\<And>k k' p. (k, p) \<in> set (pendingRequests s) \<Longrightarrow> (k', p) \<notin> set (pendingAuth s)"
    unfolding tables_ok_iff by blast+
  have fr: "\<forall>k'. (k', exchanges s) \<notin> set (pendingRequests s)"
    using br by fastforce
  have m: "p = exchanges s \<or> (k', p) \<in> set (pendingRequests s)"
    if "(k', p) \<in> set (pendingRequests s')" for k' p
    using set_update_cases [of k' p k "exchanges s" "pendingRequests s"] that u by auto
  from t u fr have "distinct (map fst (pendingRequests s'))" "distinct (map fst (pendingAuth s'))"
    "distinct (map snd (pendingRequests s'))" "distinct (map snd (pendingAuth s'))"
    unfolding tables_ok_iff by (simp_all add: distinct_update distinct_snd_update)
  moreover have "\<forall>k k' p. (k, p) \<in> set (pendingRequests s') \<longrightarrow> (k', p) \<notin> set (pendingAuth s')"
  proof (intro allI impI notI)
    fix k0 k' p
    assume r: "(k0, p) \<in> set (pendingRequests s')" and a: "(k', p) \<in> set (pendingAuth s')"
    from a u have a': "(k', p) \<in> set (pendingAuth s)" by simp
    from m [OF r] show False
    proof
      assume "p = exchanges s"
      with ba [OF a'] show False by simp
    next
      assume "(k0, p) \<in> set (pendingRequests s)"
      from dj [OF this] a' show False by simp
    qed
  qed
  moreover have "\<forall>k p. (k, p) \<in> set (pendingAuth s') \<longrightarrow> p < exchanges s'"
    using ba u by (auto simp: less_Suc_eq)
  moreover have "\<forall>k p. (k, p) \<in> set (pendingRequests s') \<longrightarrow> p < exchanges s'"
  proof (intro allI impI)
    fix k' p
    assume "(k', p) \<in> set (pendingRequests s')"
    from m [OF this] br u(3) show "p < exchanges s'" by (auto simp: less_Suc_eq)
  qed
  ultimately show ?thesis unfolding tables_ok_iff by blast
qed

lemma tables_ok_step:
  assumes t: "tables_ok s" and st: "step rt fuel lib e s = Some s'"
  shows "tables_ok s'"
  using st
proof (cases rule: step_shapes)
  case same
  with t show ?thesis by (simp add: tables_ok_def)
next
  case (answer_auth k q v)
  with t show ?thesis by (intro tables_ok_delete_auth [of s s' k]) simp_all
next
  case (answer_opack k q v)
  with t show ?thesis by (intro tables_ok_delete_opack [of s s' k]) simp_all
next
  case lost
  then show ?thesis by (simp add: tables_ok_def)
next
  case (timer_auth q k f)
  with t show ?thesis by (intro tables_ok_delete_auth [of s s' k]) simp_all
next
  case (timer_opack q x)
  with t show ?thesis by (intro tables_ok_delete_opack [of s s' x]) simp_all
next
  case (new_auth k t' cs)
  with t show ?thesis by (intro tables_ok_update_auth [of s s' k]) simp_all
next
  case (new_opack k t' cs)
  with t show ?thesis by (intro tables_ok_update_opack [of s s' k]) simp_all
qed

lemma tables_ok_run:
  "tables_ok s \<Longrightarrow> run rt fuel lib es s = Some s' \<Longrightarrow> tables_ok s'"
proof (induction es arbitrary: s)
  case Nil
  then show ?case by simp
next
  case (Cons e es)
  from Cons.prems(2) obtain s1 where s1: "step rt fuel lib e s = Some s1"
    and r: "run rt fuel lib es s1 = Some s'"
    by (auto split: option.splits)
  from Cons.IH [OF tables_ok_step [OF Cons.prems(1) s1] r] show ?case .
qed

lemma tables_ok_new: "tables_ok (new_CompanionProtocol conn start)"
  by (simp add: tables_ok_def new_CompanionProtocol_def)

subsection \<open>Exchanges the dispatcher has let go of\<close>



subsection \<open>C7: connection loss rejects every pending entry\<close>



subsection \<open>C9: a second exchangeAuth for the same reply type\<close>

lemma attached_exchangeAuth:
  assumes "tables_ok s"
  shows "attached (exchanges s) (responseType ft) ft (exchangeAuth lib ft d s)"
proof -
  let ?s' = "exchangeAuth lib ft d s"
  let ?p = "exchanges s"
  from assms have ba: "\<And>k p. (k, p) \<in> set (pendingAuth s) \<Longrightarrow> p < exchanges s"
    and br: "\<And>k p. (k, p) \<in> set (pendingRequests s) \<Longrightarrow> p < exchanges s"
    and da: "distinct (map fst (pendingAuth s))"
    unfolding tables_ok_iff by blast+
  note sh = exchangeAuth_shape [of lib ft d s]
  have "?p \<notin> snd ` set (pendingRequests ?s')"
    using br sh by force
  moreover have "k = responseType ft" if "(k, ?p) \<in> set (pendingAuth ?s')" for k
  proof -
    from that sh have "(k, ?p) \<in> set (AList.update (responseType ft) ?p (pendingAuth s))" by simp
    from set_update_cases [OF this] ba show ?thesis by force
  qed
  moreover have "map_of (timers ?s') ?p = Some (AuthTimer (responseType ft) ft)"
    using sh by (simp add: update_conv')
  moreover have "distinct (map fst (pendingAuth ?s'))"
    using sh da by (simp add: distinct_update)
  moreover have "?p < exchanges ?s'" using sh by simp
  ultimately show ?thesis unfolding attached_def by blast
qed

lemma detached_exchangeAuth:
  assumes a: "attached p rType ft1 s" and c: "calls_on p (settled s) = []"
    and r: "responseType ft2 = rType"
  shows "detached p rType ft1 False (exchangeAuth lib ft2 d s)"
proof -
  let ?s' = "exchangeAuth lib ft2 d s"
  note sh = exchangeAuth_shape [of lib ft2 d s]
  from a have lt: "p < exchanges s" and da: "distinct (map fst (pendingAuth s))"
    and nr: "p \<notin> snd ` set (pendingRequests s)"
    and only: "\<And>k. (k, p) \<in> set (pendingAuth s) \<Longrightarrow> k = rType"
    and tm: "map_of (timers s) p = Some (AuthTimer rType ft1)"
    using c unfolding attached_def by blast+
  have "p \<notin> snd ` set (pendingAuth ?s')"
  proof
    assume "p \<in> snd ` set (pendingAuth ?s')"
    then obtain k where "(k, p) \<in> set (pendingAuth ?s')" by force
    with sh r have "(k, p) \<in> set (AList.update rType (exchanges s) (pendingAuth s))" by simp
    with da have "(k = rType \<and> p = exchanges s) \<or> (k \<noteq> rType \<and> (k, p) \<in> set (pendingAuth s))"
      by (simp add: set_update_distinct)
    with lt only show False by auto
  qed
  moreover have "calls_on p (settled ?s') = []"
    using sh c lt by (auto simp: calls_on_snoc)
  moreover have "map_of (timers ?s') p = Some (AuthTimer rType ft1)"
    using sh tm lt by (simp add: update_conv')
  moreover have "p < exchanges ?s'" "p \<notin> snd ` set (pendingRequests ?s')"
    using sh lt nr by simp_all
  ultimately show ?thesis unfolding detached_def by simp
qed

lemma pack_empty_map: "pack (JObj []) = Inr [0xE0]"
  by (simp add: pack_def dedup_def)

lemma unpack_empty_map: "unpack rt (Suc (Suc n)) [0xE0] = Some (Inr (JObj [], []))"
  by (simp add: unpack_def unpack_rec.simps unpack_leaf_def at_def subarray_from_def finish_def
      includes_value_def)

lemma exchangeAuth_plain:
  "exchangeAuth lib PS_Next (JObj [])
     \<lparr>connection = \<lparr>socket = Some ws, chacha = None, connected = True\<rparr>, xid = x,
      pendingRequests = [], pendingAuth = pa, timers = ts, settled = st, exchanges = n\<rparr>
   = \<lparr>connection = \<lparr>socket = Some (ws @ [[4, 0, 0, 1, 0xE0]]), chacha = None, connected = True\<rparr>,
      xid = x, pendingRequests = [], pendingAuth = AList.update 4 n pa,
      timers = AList.update n (AuthTimer 4 4) ts, settled = st, exchanges = n + 1\<rparr>"
  by (simp add: exchangeAuth_def send_packed_def pack_empty_map send_def frame_header_def
      responseType_def PS_Next_def PS_Start_def PV_Start_def PV_Next_def Let_def)

text \<open>
  C9: let a call of \<open>exchangeAuth\<close> be made in a state whose tables are well formed, and
  after any events let its promise be undecided and its entry still be in the pending-auth
  table under its reply frame type. A second call of \<open>exchangeAuth\<close> that expects the same
  reply frame type then puts its own entry under that key in place of the first one: the
  table holds the second exchange there, and the first exchange is in neither table.
  Whatever events follow (frames of any type and payload, loss of the connection, timers,
  further exchanges), no call of \<open>resolve\<close> is ever made on the first promise, and the
  only call of \<open>reject\<close> made on it is that of its own timer: the calls recorded for it
  are the one timeout rejection if its timer has fired and none otherwise, and the promise
  is rejected with the timeout error or still undecided accordingly.
\<close>

theorem exchangeAuth_overwrites:
  assumes "tables_ok s0"
    and "run rt fuel lib es1 (exchangeAuth lib ft1 d1 s0) = Some s1"
    and "outcome s1 (exchanges s0) = None"
    and "map_of (pendingAuth s1) (responseType ft1) = Some (exchanges s0)"
    and "responseType ft2 = responseType ft1"
    and "run rt fuel lib es2 (exchangeAuth lib ft2 d2 s1) = Some s2"
  shows "map_of (pendingAuth (exchangeAuth lib ft2 d2 s1)) (responseType ft1) = Some (exchanges s1)
     \<and> exchanges s1 \<noteq> exchanges s0
     \<and> exchanges s0 \<notin> snd ` set (pendingAuth (exchangeAuth lib ft2 d2 s1))
     \<and> exchanges s0 \<notin> snd ` set (pendingRequests (exchangeAuth lib ft2 d2 s1))
     \<and> calls_on (exchanges s0) (settled s2)
         = (if TimerFired (exchanges s0) \<in> set es2 then [Reject (Error_AuthTimeout ft1)] else [])
     \<and> outcome s2 (exchanges s0)
         = (if TimerFired (exchanges s0) \<in> set es2 then Some (Reject (Error_AuthTimeout ft1))
            else None)"
proof -
  let ?p = "exchanges s0"
  let ?rt = "responseType ft1"
  have "attached ?p ?rt ft1 (exchangeAuth lib ft1 d1 s0)"
    using assms(1) by (rule attached_exchangeAuth)
  from attached_run [OF this assms(2)] have a: "attached ?p ?rt ft1 s1" .
  from assms(3) have c: "calls_on ?p (settled s1) = []"
    by (simp add: outcome_calls_on split: list.splits)
  from detached_exchangeAuth [OF a c assms(5)]
  have d: "detached ?p ?rt ft1 False (exchangeAuth lib ft2 d2 s1)" .
  from detached_run [OF d assms(6)]
  have d2: "detached ?p ?rt ft1 (False \<or> TimerFired ?p \<in> set es2) s2" .
  have 1: "map_of (pendingAuth (exchangeAuth lib ft2 d2 s1)) ?rt = Some (exchanges s1)"
    using exchangeAuth_shape [of lib ft2 d2 s1] assms(5) by (simp add: update_conv')
  have 2: "exchanges s1 \<noteq> ?p" using a by (simp add: attached_def)
  have 3: "?p \<notin> snd ` set (pendingAuth (exchangeAuth lib ft2 d2 s1))"
    "?p \<notin> snd ` set (pendingRequests (exchangeAuth lib ft2 d2 s1))"
    using d by (simp_all add: detached_def)
  have 4: "calls_on ?p (settled s2)
      = (if TimerFired ?p \<in> set es2 then [Reject (Error_AuthTimeout ft1)] else [])"
    using d2 by (simp add: detached_def split: if_splits)
  then have 5: "outcome s2 ?p
      = (if TimerFired ?p \<in> set es2 then Some (Reject (Error_AuthTimeout ft1)) else None)"
    by (simp add: outcome_calls_on)
  show ?thesis
    by (intro conjI 1 2 3 4 5)
qed

theorem exchangeAuth_overwrites_witness:
  "tables_ok (new_CompanionProtocol \<lparr>socket = Some [], chacha = None, connected = True\<rparr> 7)
   \<and> run \<lparr>rt_readFloatLE = \<lambda>b. Integer 0, rt_readDoubleLE = \<lambda>b. Integer 0,
           rt_Number = \<lambda>n. Integer (int n), rt_String = \<lambda>v. []\<rparr>
        (Suc (Suc 0)) (\<lambda>k n a d. Inl Error_Aead)
        [FrameReceived PS_Next [0xE0], TimerFired 0]
        (exchangeAuth (\<lambda>k n a d. Inl Error_Aead) PS_Next (JObj [])
           (exchangeAuth (\<lambda>k n a d. Inl Error_Aead) PS_Next (JObj [])
              (new_CompanionProtocol \<lparr>socket = Some [], chacha = None, connected = True\<rparr> 7)))
      = Some \<lparr>connection = \<lparr>socket = Some [[4, 0, 0, 1, 0xE0], [4, 0, 0, 1, 0xE0]],
                           chacha = None, connected = True\<rparr>,
              xid = 7, pendingRequests = [], pendingAuth = [], timers = [],
              settled = [(1, Resolve (JObj [])), (0, Reject (Error_AuthTimeout PS_Next))],
              exchanges = 2\<rparr>
   \<and> outcome \<lparr>connection = \<lparr>socket = Some [[4, 0, 0, 1, 0xE0], [4, 0, 0, 1, 0xE0]],
                           chacha = None, connected = True\<rparr>,
              xid = 7, pendingRequests = [], pendingAuth = [], timers = [],
              settled = [(1, Resolve (JObj [])), (0, Reject (Error_AuthTimeout PS_Next))],
              exchanges = 2\<rparr> 0
      = Some (Reject (Error_AuthTimeout PS_Next))"
proof -
  let ?rt = "\<lparr>rt_readFloatLE = \<lambda>b. Integer 0, rt_readDoubleLE = \<lambda>b. Integer 0,
           rt_Number = \<lambda>n. Integer (int n), rt_String = \<lambda>v. []\<rparr>"
  let ?lib = "\<lambda>k n a d. Inl Error_Aead :: error + bytes"
  let ?conn = "\<lparr>socket = Some [], chacha = None, connected = True\<rparr>"
  let ?s0 = "new_CompanionProtocol ?conn 7"
  let ?s1 = "exchangeAuth ?lib PS_Next (JObj []) ?s0"
  let ?s2 = "\<lparr>connection = \<lparr>socket = Some [[4, 0, 0, 1, 0xE0], [4, 0, 0, 1, 0xE0]],
                           chacha = None, connected = True\<rparr>,
              xid = 7, pendingRequests = [], pendingAuth = [], timers = [],
              settled = [(1, Resolve (JObj [])), (0, Reject (Error_AuthTimeout PS_Next))],
              exchanges = 2\<rparr>"
  let ?es2 = "[FrameReceived PS_Next [0xE0], TimerFired 0]"
  have s1: "?s1 = \<lparr>connection = \<lparr>socket = Some [[4, 0, 0, 1, 0xE0]], chacha = None, connected = True\<rparr>,
      xid = 7, pendingRequests = [], pendingAuth = [(4, 0)],
      timers = [(0, AuthTimer 4 4)], settled = [], exchanges = 1\<rparr>"
    by (simp add: new_CompanionProtocol_def exchangeAuth_plain)
  have s1': "exchangeAuth ?lib PS_Next (JObj []) ?s1
      = \<lparr>connection = \<lparr>socket = Some [[4, 0, 0, 1, 0xE0], [4, 0, 0, 1, 0xE0]], chacha = None,
                         connected = True\<rparr>,
      xid = 7, pendingRequests = [], pendingAuth = [(4, 1)],
      timers = [(0, AuthTimer 4 4), (1, AuthTimer 4 4)], settled = [], exchanges = 2\<rparr>"
    by (simp only: s1 exchangeAuth_plain) simp
  have h1: "tables_ok ?s0" by (simp add: tables_ok_def new_CompanionProtocol_def)
  have h2: "run ?rt (Suc (Suc 0)) ?lib [] ?s1 = Some ?s1" by simp
  have e0: "exchanges ?s0 = 0" by (simp add: new_CompanionProtocol_def)
  have h3: "outcome ?s1 (exchanges ?s0) = None"
    by (simp only: s1 e0) (simp add: outcome_def)
  have h4: "map_of (pendingAuth ?s1) (responseType PS_Next) = Some (exchanges ?s0)"
    by (simp only: s1 e0)
       (simp add: responseType_def PS_Next_def PS_Start_def PV_Start_def)
  have h5: "responseType PS_Next = responseType PS_Next" ..
  have h6: "run ?rt (Suc (Suc 0)) ?lib ?es2 (exchangeAuth ?lib PS_Next (JObj []) ?s1) = Some ?s2"
    by (simp only: s1')
       (simp add: frameReceived_def handleAuthFrame_def unpack_empty_map PS_Next_def PS_Start_def
          PV_Next_def resolve_def clearTimeout_def timerFired_def reject_def)
  from exchangeAuth_overwrites [OF h1 h2 h3 h4 h5 h6]
  have "outcome ?s2 (exchanges ?s0)
      = (if TimerFired (exchanges ?s0) \<in> set ?es2
         then Some (Reject (Error_AuthTimeout PS_Next)) else None)"
    by blast
  then have c: "outcome ?s2 0 = Some (Reject (Error_AuthTimeout PS_Next))"
    by (simp only: e0) simp
  show ?thesis
    by (intro conjI h1 h6 c)
qed
subsection \<open>C8: the transaction id of sendCommand\<close>

lemma le_bytes_8_2_32: "le_bytes 8 4294967296 = [0, 0, 0, 0, 1, 0, 0, 0]"
  by (simp add: le_bytes_def upt_rec)

lemma le_bytes_4_max: "le_bytes 4 4294967295 = [0xFF, 0xFF, 0xFF, 0xFF]"
  by (simp add: le_bytes_def upt_rec)

lemma packString_key:
  "packString [CHR ''_'', c] = Inr [0x42, 0x5F, of_nat (of_char c)]"
  by (simp add: packString_def utf8_def)

lemma packString_a: "packString ''a'' = Inr [0x41, 0x61]"
  by (simp add: packString_def utf8_def)

lemma pack_request_7:
  "pack (JObj [(''_i'', JStr ''a''), (''_t'', JNum (Integer 2)), (''_c'', JObj []),
               (''_x'', JNum (Integer 7))])
   = Inr [0xE4, 0x42, 0x5F, 0x69, 0x41, 0x61, 0x42, 0x5F, 0x74, 0x0A, 0x42, 0x5F, 0x63, 0xE0,
          0x42, 0x5F, 0x78, 0x0F]"
  by (simp add: pack_def packString_key packString_a dedup_def packInteger_def)

lemma pack_request_max:
  "pack (JObj [(''_i'', JStr ''a''), (''_t'', JNum (Integer 2)), (''_c'', JObj []),
               (''_x'', JNum (Integer 4294967295))])
   = Inr [0xE4, 0x42, 0x5F, 0x69, 0x41, 0x61, 0x42, 0x5F, 0x74, 0x0A, 0x42, 0x5F, 0x63, 0xE0,
          0x42, 0x5F, 0x78, 0x32, 0xFF, 0xFF, 0xFF, 0xFF]"
  by (simp add: pack_def packString_key packString_a dedup_def packInteger_def le_bytes_4_max)

lemma pack_request_2_32:
  "pack (JObj [(''_i'', JStr ''a''), (''_t'', JNum (Integer 2)), (''_c'', JObj []),
               (''_x'', JNum (Integer 4294967296))])
   = Inr [0xE4, 0x42, 0x5F, 0x69, 0x41, 0x61, 0x42, 0x5F, 0x74, 0x0A, 0x42, 0x5F, 0x63, 0xE0,
          0x42, 0x5F, 0x78, 0x33, 0, 0, 0, 0, 1, 0, 0, 0]"
  by (simp add: pack_def packString_key packString_a dedup_def packInteger_def le_bytes_8_2_32)

lemma pack_request_0:
  "pack (JObj [(''_i'', JStr ''a''), (''_t'', JNum (Integer 2)), (''_c'', JObj []),
               (''_x'', JNum (Integer 0))])
   = Inr [0xE4, 0x42, 0x5F, 0x69, 0x41, 0x61, 0x42, 0x5F, 0x74, 0x0A, 0x42, 0x5F, 0x63, 0xE0,
          0x42, 0x5F, 0x78, 0x08]"
  by (simp add: pack_def packString_key packString_a dedup_def packInteger_def)

lemma sendCommand_unfold:
  "sendCommand lib identifier content s
     = send_packed lib (exchanges s) E_OPACK
         (JObj [(''_i'', JStr identifier), (''_t'', JNum (Integer MessageType_Request)),
                (''_c'', content), (''_x'', JNum (Integer (int (xid s))))])
         (s\<lparr>xid := increment (xid s), exchanges := exchanges s + 1,
            timers := AList.update (exchanges s) (OpackTimer (xid s)) (timers s),
            pendingRequests := AList.update (xid s) (exchanges s) (pendingRequests s)\<rparr>)"
  by (simp add: sendCommand_def exchangeOpack_def Let_def)

lemma sendCommand_fields:
  "xid (sendCommand lib identifier content s) = increment (xid s)
   \<and> exchanges (sendCommand lib identifier content s) = exchanges s + 1
   \<and> pendingRequests (sendCommand lib identifier content s)
       = AList.update (xid s) (exchanges s) (pendingRequests s)
   \<and> timers (sendCommand lib identifier content s)
       = AList.update (exchanges s) (OpackTimer (xid s)) (timers s)
   \<and> pendingAuth (sendCommand lib identifier content s) = pendingAuth s"
  using exchangeOpack_shape
    [of lib "[(''_i'', JStr identifier), (''_t'', JNum (Integer MessageType_Request)),
              (''_c'', content)]" E_OPACK s]
  by (simp add: sendCommand_def)

lemma sendCommand_funpow_xid:
  "xid s + n \<le> 2 ^ 53 \<Longrightarrow> xid ((sendCommand lib identifier content ^^ n) s) = xid s + n"
  by (induction n) (simp_all add: sendCommand_fields increment_def)

lemma send_packed_plain:
  assumes "socket (connection s) = Some ws" and "connected (connection s)"
    and "chacha (connection s) = None" and "pack data = Inr packed"
  shows "send_packed lib p ft data s
    = s\<lparr>connection := (connection s)\<lparr>socket := Some (ws @ [frame_header ft (length packed) @ packed])\<rparr>\<rparr>"
  using assms by (simp add: send_packed_def send_def Let_def)

lemma frame_header_small: "n < 256 \<Longrightarrow> frame_header ft n = [of_nat ft, 0, 0, of_nat n]"
  by (simp add: frame_header_be24 spec_be24_def)

lemma sendCommand_plain:
  assumes "socket (connection s) = Some ws" and "connected (connection s)"
    and "chacha (connection s) = None"
    and "pack (JObj [(''_i'', JStr identifier), (''_t'', JNum (Integer MessageType_Request)),
                     (''_c'', content), (''_x'', JNum (Integer (int (xid s))))]) = Inr packed"
  shows "sendCommand lib identifier content s
    = s\<lparr>xid := increment (xid s), exchanges := exchanges s + 1,
        timers := AList.update (exchanges s) (OpackTimer (xid s)) (timers s),
        pendingRequests := AList.update (xid s) (exchanges s) (pendingRequests s),
        connection := (connection s)
          \<lparr>socket := Some (ws @ [frame_header E_OPACK (length packed) @ packed])\<rparr>\<rparr>"
  using assms
  by (simp add: sendCommand_unfold send_packed_plain [where ws = ws and packed = packed])

lemma sendCommand_at_max:
  "sendCommand lib ''a'' (JObj [])
     \<lparr>connection = \<lparr>socket = Some [], chacha = None, connected = True\<rparr>, xid = 4294967295,
      pendingRequests = [], pendingAuth = [], timers = [], settled = [], exchanges = 0\<rparr>
   = \<lparr>connection = \<lparr>socket = Some [[0x08, 0, 0, 0x16, 0xE4, 0x42, 0x5F, 0x69, 0x41, 0x61,
          0x42, 0x5F, 0x74, 0x0A, 0x42, 0x5F, 0x63, 0xE0, 0x42, 0x5F, 0x78,
          0x32, 0xFF, 0xFF, 0xFF, 0xFF]], chacha = None, connected = True\<rparr>,
      xid = 4294967296, pendingRequests = [(4294967295, 0)], pendingAuth = [],
      timers = [(0, OpackTimer 4294967295)], settled = [], exchanges = 1\<rparr>"
  by (simp add: sendCommand_plain [where ws = "[]" and packed = "[0xE4, 0x42, 0x5F, 0x69, 0x41, 0x61,
          0x42, 0x5F, 0x74, 0x0A, 0x42, 0x5F, 0x63, 0xE0, 0x42, 0x5F, 0x78,
          0x32, 0xFF, 0xFF, 0xFF, 0xFF]"] pack_request_max MessageType_Request_def E_OPACK_def
        frame_header_small increment_def)

lemma sendCommand_past_max:
  "sendCommand lib ''a'' (JObj [])
     \<lparr>connection = \<lparr>socket = Some ws, chacha = None, connected = True\<rparr>, xid = 4294967296,
      pendingRequests = pr, pendingAuth = [], timers = ts, settled = [], exchanges = n\<rparr>
   = \<lparr>connection = \<lparr>socket = Some (ws @ [[0x08, 0, 0, 0x1A, 0xE4, 0x42, 0x5F, 0x69, 0x41, 0x61,
          0x42, 0x5F, 0x74, 0x0A, 0x42, 0x5F, 0x63, 0xE0, 0x42, 0x5F, 0x78,
          0x33, 0, 0, 0, 0, 1, 0, 0, 0]]), chacha = None, connected = True\<rparr>,
      xid = 4294967297, pendingRequests = AList.update 4294967296 n pr, pendingAuth = [],
      timers = AList.update n (OpackTimer 4294967296) ts, settled = [], exchanges = n + 1\<rparr>"
  by (simp add: sendCommand_plain [where ws = ws and packed = "[0xE4, 0x42, 0x5F, 0x69, 0x41, 0x61,
          0x42, 0x5F, 0x74, 0x0A, 0x42, 0x5F, 0x63, 0xE0, 0x42, 0x5F, 0x78,
          0x33, 0, 0, 0, 0, 1, 0, 0, 0]"] pack_request_2_32 MessageType_Request_def E_OPACK_def
        frame_header_small increment_def)

text \<open>
  C8, as stated, fails: the counter is not reduced modulo \<open>2 ^ 32\<close>. It reaches
  \<open>2 ^ 32\<close> (from the starting value 65535, after 4294901761 calls), and the call made
  there puts \<open>_x = 4294967296\<close> in the request (the nine bytes
  \<open>33 00 00 00 00 01 00 00 00\<close>) and registers the entry under 4294967296, while the
  counter modulo \<open>2 ^ 32\<close> is 0, which would be sent as the one byte \<open>08\<close> and under
  which no entry is registered.
\<close>

theorem sendCommand_xid_counterexample:
  "xid ((sendCommand (\<lambda>k n a d. Inl Error_Aead) ''a'' (JObj []) ^^ 4294901761)
          (new_CompanionProtocol \<lparr>socket = Some [], chacha = None, connected = True\<rparr> 65535))
     = 4294967296
   \<and> sendCommand (\<lambda>k n a d. Inl Error_Aead) ''a'' (JObj [])
        \<lparr>connection = \<lparr>socket = Some [], chacha = None, connected = True\<rparr>, xid = 4294967296,
         pendingRequests = [], pendingAuth = [], timers = [], settled = [], exchanges = 0\<rparr>
     = \<lparr>connection = \<lparr>socket = Some [[0x08, 0, 0, 0x1A, 0xE4, 0x42, 0x5F, 0x69, 0x41, 0x61,
          0x42, 0x5F, 0x74, 0x0A, 0x42, 0x5F, 0x63, 0xE0, 0x42, 0x5F, 0x78,
          0x33, 0, 0, 0, 0, 1, 0, 0, 0]], chacha = None, connected = True\<rparr>,
        xid = 4294967297, pendingRequests = [(4294967296, 0)], pendingAuth = [],
        timers = [(0, OpackTimer 4294967296)], settled = [], exchanges = 1\<rparr>
   \<and> (4294967296::nat) mod 2 ^ 32 = 0
   \<and> pack (JObj [(''_i'', JStr ''a''), (''_t'', JNum (Integer MessageType_Request)),
                  (''_c'', JObj []), (''_x'', JNum (Integer (4294967296 mod 2 ^ 32)))])
     = Inr [0xE4, 0x42, 0x5F, 0x69, 0x41, 0x61, 0x42, 0x5F, 0x74, 0x0A, 0x42, 0x5F, 0x63, 0xE0,
            0x42, 0x5F, 0x78, 0x08]
   \<and> map_of (pendingRequests (sendCommand (\<lambda>k n a d. Inl Error_Aead) ''a'' (JObj [])
        \<lparr>connection = \<lparr>socket = Some [], chacha = None, connected = True\<rparr>, xid = 4294967296,
         pendingRequests = [], pendingAuth = [], timers = [], settled = [], exchanges = 0\<rparr>))
       (4294967296 mod 2 ^ 32) = None"
proof -
  have a: "xid ((sendCommand (\<lambda>k n a d. Inl Error_Aead) ''a'' (JObj []) ^^ 4294901761)
          (new_CompanionProtocol \<lparr>socket = Some [], chacha = None, connected = True\<rparr> 65535))
     = 4294967296"
    by (subst sendCommand_funpow_xid) (simp_all add: new_CompanionProtocol_def)
  have b: "sendCommand (\<lambda>k n a d. Inl Error_Aead) ''a'' (JObj [])
        \<lparr>connection = \<lparr>socket = Some [], chacha = None, connected = True\<rparr>, xid = 4294967296,
         pendingRequests = [], pendingAuth = [], timers = [], settled = [], exchanges = 0\<rparr>
     = \<lparr>connection = \<lparr>socket = Some [[0x08, 0, 0, 0x1A, 0xE4, 0x42, 0x5F, 0x69, 0x41, 0x61,
          0x42, 0x5F, 0x74, 0x0A, 0x42, 0x5F, 0x63, 0xE0, 0x42, 0x5F, 0x78,
          0x33, 0, 0, 0, 0, 1, 0, 0, 0]], chacha = None, connected = True\<rparr>,
        xid = 4294967297, pendingRequests = [(4294967296, 0)], pendingAuth = [],
        timers = [(0, OpackTimer 4294967296)], settled = [], exchanges = 1\<rparr>"
    by (simp only: sendCommand_past_max) simp
  have c: "(4294967296::nat) mod 2 ^ 32 = 0" by simp
  have d: "pack (JObj [(''_i'', JStr ''a''), (''_t'', JNum (Integer MessageType_Request)),
                  (''_c'', JObj []), (''_x'', JNum (Integer (4294967296 mod 2 ^ 32)))])
     = Inr [0xE4, 0x42, 0x5F, 0x69, 0x41, 0x61, 0x42, 0x5F, 0x74, 0x0A, 0x42, 0x5F, 0x63, 0xE0,
            0x42, 0x5F, 0x78, 0x08]"
    using pack_request_0 by (simp add: MessageType_Request_def)
  have e: "map_of (pendingRequests (sendCommand (\<lambda>k n a d. Inl Error_Aead) ''a'' (JObj [])
        \<lparr>connection = \<lparr>socket = Some [], chacha = None, connected = True\<rparr>, xid = 4294967296,
         pendingRequests = [], pendingAuth = [], timers = [], settled = [], exchanges = 0\<rparr>))
       (4294967296 mod 2 ^ 32) = None"
    by (simp only: b) simp
  show ?thesis
    by (intro conjI a b c d e)
qed

text \<open>
  C8, amended: every \<open>sendCommand\<close> takes its transaction id as \<open>_x = xid++\<close>, with no
  reduction. For any state of the counter, the request handed to the encoder and to
  \<open>send\<close> on \<open>E_OPACK\<close> is \<open>{_i, _t = Request, _c, _x}\<close> with \<open>_x\<close> the value of the
  counter itself, the entry of the pending-request table is registered under that same
  value (and its timer refers to it), and the call advances the counter by exactly one
  (below \<open>2 ^ 53\<close>, where a JavaScript number stops growing by one), so that
  successive calls use consecutive ids (after \<open>n\<close> calls the counter has grown by
  \<open>n\<close>) which keep growing past \<open>2 ^ 32 - 1\<close>: the call at 4294967295 sends
  \<open>32 FF FF FF FF\<close> and the next one sends \<open>33 00 00 00 00 01 00 00 00\<close>, both entries
  being in the table under their own ids. On a connected socket without a cipher the
  frame written is the \<open>E_OPACK\<close> header followed by the encoded request.
\<close>

theorem sendCommand_transaction_id:
  "sendCommand lib identifier content s
     = send_packed lib (exchanges s) E_OPACK
         (JObj [(''_i'', JStr identifier), (''_t'', JNum (Integer MessageType_Request)),
                (''_c'', content), (''_x'', JNum (Integer (int (xid s))))])
         (s\<lparr>xid := increment (xid s), exchanges := exchanges s + 1,
            timers := AList.update (exchanges s) (OpackTimer (xid s)) (timers s),
            pendingRequests := AList.update (xid s) (exchanges s) (pendingRequests s)\<rparr>)
   \<and> pendingRequests (sendCommand lib identifier content s)
       = AList.update (xid s) (exchanges s) (pendingRequests s)
   \<and> map_of (pendingRequests (sendCommand lib identifier content s)) (xid s)
       = Some (exchanges s)
   \<and> timers (sendCommand lib identifier content s)
       = AList.update (exchanges s) (OpackTimer (xid s)) (timers s)
   \<and> xid (sendCommand lib identifier content s) = increment (xid s)
   \<and> (xid s < 2 ^ 53 \<longrightarrow> xid (sendCommand lib identifier content s) = xid s + 1)
   \<and> (xid s + n \<le> 2 ^ 53 \<longrightarrow>
        xid ((sendCommand lib identifier content ^^ n) s) = xid s + n)
   \<and> (socket (connection s) = Some ws \<and> connected (connection s)
        \<and> chacha (connection s) = None
        \<and> pack (JObj [(''_i'', JStr identifier), (''_t'', JNum (Integer MessageType_Request)),
                       (''_c'', content), (''_x'', JNum (Integer (int (xid s))))]) = Inr packed
      \<longrightarrow> connection (sendCommand lib identifier content s)
            = (connection s)
                \<lparr>socket := Some (ws @ [frame_header E_OPACK (length packed) @ packed])\<rparr>
          \<and> settled (sendCommand lib identifier content s) = settled s)
   \<and> sendCommand lib ''a'' (JObj [])
        \<lparr>connection = \<lparr>socket = Some [], chacha = None, connected = True\<rparr>, xid = 4294967295,
         pendingRequests = [], pendingAuth = [], timers = [], settled = [], exchanges = 0\<rparr>
     = \<lparr>connection = \<lparr>socket = Some [[0x08, 0, 0, 0x16, 0xE4, 0x42, 0x5F, 0x69, 0x41, 0x61,
          0x42, 0x5F, 0x74, 0x0A, 0x42, 0x5F, 0x63, 0xE0, 0x42, 0x5F, 0x78,
          0x32, 0xFF, 0xFF, 0xFF, 0xFF]], chacha = None, connected = True\<rparr>,
        xid = 4294967296, pendingRequests = [(4294967295, 0)], pendingAuth = [],
        timers = [(0, OpackTimer 4294967295)], settled = [], exchanges = 1\<rparr>
   \<and> sendCommand lib ''a'' (JObj [])
        \<lparr>connection = \<lparr>socket = Some [[0x08, 0, 0, 0x16, 0xE4, 0x42, 0x5F, 0x69, 0x41, 0x61,
          0x42, 0x5F, 0x74, 0x0A, 0x42, 0x5F, 0x63, 0xE0, 0x42, 0x5F, 0x78,
          0x32, 0xFF, 0xFF, 0xFF, 0xFF]], chacha = None, connected = True\<rparr>,
        xid = 4294967296, pendingRequests = [(4294967295, 0)], pendingAuth = [],
        timers = [(0, OpackTimer 4294967295)], settled = [], exchanges = 1\<rparr>
     = \<lparr>connection = \<lparr>socket = Some [[0x08, 0, 0, 0x16, 0xE4, 0x42, 0x5F, 0x69, 0x41, 0x61,
          0x42, 0x5F, 0x74, 0x0A, 0x42, 0x5F, 0x63, 0xE0, 0x42, 0x5F, 0x78,
          0x32, 0xFF, 0xFF, 0xFF, 0xFF],
         [0x08, 0, 0, 0x1A, 0xE4, 0x42, 0x5F, 0x69, 0x41, 0x61,
          0x42, 0x5F, 0x74, 0x0A, 0x42, 0x5F, 0x63, 0xE0, 0x42, 0x5F, 0x78,
          0x33, 0, 0, 0, 0, 1, 0, 0, 0]], chacha = None, connected = True\<rparr>,
        xid = 4294967297, pendingRequests = [(4294967295, 0), (4294967296, 1)],
        pendingAuth = [],
        timers = [(0, OpackTimer 4294967295), (1, OpackTimer 4294967296)], settled = [],
        exchanges = 2\<rparr>"
proof -
  note f = sendCommand_fields [of lib "identifier" content s]
  have 1: "sendCommand lib identifier content s
     = send_packed lib (exchanges s) E_OPACK
         (JObj [(''_i'', JStr identifier), (''_t'', JNum (Integer MessageType_Request)),
                (''_c'', content), (''_x'', JNum (Integer (int (xid s))))])
         (s\<lparr>xid := increment (xid s), exchanges := exchanges s + 1,
            timers := AList.update (exchanges s) (OpackTimer (xid s)) (timers s),
            pendingRequests := AList.update (xid s) (exchanges s) (pendingRequests s)\<rparr>)"
    by (rule sendCommand_unfold)
  have 2: "pendingRequests (sendCommand lib identifier content s)
       = AList.update (xid s) (exchanges s) (pendingRequests s)"
    using f by simp
  have 3: "map_of (pendingRequests (sendCommand lib identifier content s)) (xid s)
       = Some (exchanges s)"
    by (simp add: 2 update_conv')
  have 4: "timers (sendCommand lib identifier content s)
       = AList.update (exchanges s) (OpackTimer (xid s)) (timers s)"
    using f by simp
  have 5: "xid (sendCommand lib identifier content s) = increment (xid s)"
    using f by simp
  have inc: "xid s < 2 ^ 53 \<longrightarrow> xid (sendCommand lib identifier content s) = xid s + 1"
    using f by (simp add: increment_def)
  have 6: "xid s + n \<le> 2 ^ 53 \<longrightarrow>
        xid ((sendCommand lib identifier content ^^ n) s) = xid s + n"
    by (simp add: sendCommand_funpow_xid)
  have 7: "socket (connection s) = Some ws \<and> connected (connection s)
        \<and> chacha (connection s) = None
        \<and> pack (JObj [(''_i'', JStr identifier), (''_t'', JNum (Integer MessageType_Request)),
                       (''_c'', content), (''_x'', JNum (Integer (int (xid s))))]) = Inr packed
      \<longrightarrow> connection (sendCommand lib identifier content s)
            = (connection s)
                \<lparr>socket := Some (ws @ [frame_header E_OPACK (length packed) @ packed])\<rparr>
          \<and> settled (sendCommand lib identifier content s) = settled s"
  proof (intro impI, elim conjE)
    assume "socket (connection s) = Some ws" "connected (connection s)"
      "chacha (connection s) = None"
      "pack (JObj [(''_i'', JStr identifier), (''_t'', JNum (Integer MessageType_Request)),
                       (''_c'', content), (''_x'', JNum (Integer (int (xid s))))]) = Inr packed"
    from sendCommand_plain [OF this, of lib]
    show "connection (sendCommand lib identifier content s)
            = (connection s)
                \<lparr>socket := Some (ws @ [frame_header E_OPACK (length packed) @ packed])\<rparr>
          \<and> settled (sendCommand lib identifier content s) = settled s"
      by simp
  qed
  have 8: "sendCommand lib ''a'' (JObj [])
        \<lparr>connection = \<lparr>socket = Some [], chacha = None, connected = True\<rparr>, xid = 4294967295,
         pendingRequests = [], pendingAuth = [], timers = [], settled = [], exchanges = 0\<rparr>
     = \<lparr>connection = \<lparr>socket = Some [[0x08, 0, 0, 0x16, 0xE4, 0x42, 0x5F, 0x69, 0x41, 0x61,
          0x42, 0x5F, 0x74, 0x0A, 0x42, 0x5F, 0x63, 0xE0, 0x42, 0x5F, 0x78,
          0x32, 0xFF, 0xFF, 0xFF, 0xFF]], chacha = None, connected = True\<rparr>,
        xid = 4294967296, pendingRequests = [(4294967295, 0)], pendingAuth = [],
        timers = [(0, OpackTimer 4294967295)], settled = [], exchanges = 1\<rparr>"
    by (rule sendCommand_at_max)
  have 9: "sendCommand lib ''a'' (JObj [])
        \<lparr>connection = \<lparr>socket = Some [[0x08, 0, 0, 0x16, 0xE4, 0x42, 0x5F, 0x69, 0x41, 0x61,
          0x42, 0x5F, 0x74, 0x0A, 0x42, 0x5F, 0x63, 0xE0, 0x42, 0x5F, 0x78,
          0x32, 0xFF, 0xFF, 0xFF, 0xFF]], chacha = None, connected = True\<rparr>,
        xid = 4294967296, pendingRequests = [(4294967295, 0)], pendingAuth = [],
        timers = [(0, OpackTimer 4294967295)], settled = [], exchanges = 1\<rparr>
     = \<lparr>connection = \<lparr>socket = Some [[0x08, 0, 0, 0x16, 0xE4, 0x42, 0x5F, 0x69, 0x41, 0x61,
          0x42, 0x5F, 0x74, 0x0A, 0x42, 0x5F, 0x63, 0xE0, 0x42, 0x5F, 0x78,
          0x32, 0xFF, 0xFF, 0xFF, 0xFF],
         [0x08, 0, 0, 0x1A, 0xE4, 0x42, 0x5F, 0x69, 0x41, 0x61,
          0x42, 0x5F, 0x74, 0x0A, 0x42, 0x5F, 0x63, 0xE0, 0x42, 0x5F, 0x78,
          0x33, 0, 0, 0, 0, 1, 0, 0, 0]], chacha = None, connected = True\<rparr>,
        xid = 4294967297, pendingRequests = [(4294967295, 0), (4294967296, 1)],
        pendingAuth = [],
        timers = [(0, OpackTimer 4294967295), (1, OpackTimer 4294967296)], settled = [],
        exchanges = 2\<rparr>"
    by (simp only: sendCommand_past_max) simp
  show ?thesis
    by (intro conjI 1 2 3 4 5 inc 6 7 8 9)
qed

theorem sendCommand_transaction_id_witness:
  "socket (connection (new_CompanionProtocol
      \<lparr>socket = Some [], chacha = None, connected = True\<rparr> 7)) = Some []
   \<and> connected (connection (new_CompanionProtocol
      \<lparr>socket = Some [], chacha = None, connected = True\<rparr> 7))
   \<and> chacha (connection (new_CompanionProtocol
      \<lparr>socket = Some [], chacha = None, connected = True\<rparr> 7)) = None
   \<and> pack (JObj [(''_i'', JStr ''a''), (''_t'', JNum (Integer MessageType_Request)),
                  (''_c'', JObj []),
                  (''_x'', JNum (Integer (int (xid (new_CompanionProtocol
                      \<lparr>socket = Some [], chacha = None, connected = True\<rparr> 7)))))])
       = Inr [0xE4, 0x42, 0x5F, 0x69, 0x41, 0x61, 0x42, 0x5F, 0x74, 0x0A, 0x42, 0x5F, 0x63, 0xE0,
              0x42, 0x5F, 0x78, 0x0F]
   \<and> connection (sendCommand (\<lambda>k n a d. Inl Error_Aead) ''a'' (JObj [])
        (new_CompanionProtocol \<lparr>socket = Some [], chacha = None, connected = True\<rparr> 7))
       = \<lparr>socket = Some [[0x08, 0, 0, 0x12, 0xE4, 0x42, 0x5F, 0x69, 0x41, 0x61, 0x42, 0x5F, 0x74,
            0x0A, 0x42, 0x5F, 0x63, 0xE0, 0x42, 0x5F, 0x78, 0x0F]],
          chacha = None, connected = True\<rparr>
   \<and> pendingRequests (sendCommand (\<lambda>k n a d. Inl Error_Aead) ''a'' (JObj [])
        (new_CompanionProtocol \<lparr>socket = Some [], chacha = None, connected = True\<rparr> 7))
       = [(7, 0)]
   \<and> xid (new_CompanionProtocol \<lparr>socket = Some [], chacha = None, connected = True\<rparr> 7)
       < 2 ^ 53
   \<and> xid (sendCommand (\<lambda>k n a d. Inl Error_Aead) ''a'' (JObj [])
        (new_CompanionProtocol \<lparr>socket = Some [], chacha = None, connected = True\<rparr> 7))
       = 8
   \<and> xid (new_CompanionProtocol \<lparr>socket = Some [], chacha = None, connected = True\<rparr> 7) + 3
       \<le> 2 ^ 53
   \<and> xid ((sendCommand (\<lambda>k n a d. Inl Error_Aead) ''a'' (JObj []) ^^ 3)
        (new_CompanionProtocol \<lparr>socket = Some [], chacha = None, connected = True\<rparr> 7))
       = 10"
proof -
  let ?s = "new_CompanionProtocol \<lparr>socket = Some [], chacha = None, connected = True\<rparr> 7"
  let ?lib = "\<lambda>k n a d. Inl Error_Aead :: error + bytes"
  let ?packed = "[0xE4, 0x42, 0x5F, 0x69, 0x41, 0x61, 0x42, 0x5F, 0x74, 0x0A, 0x42, 0x5F, 0x63, 0xE0,
              0x42, 0x5F, 0x78, 0x0F] :: bytes"
  have h1: "socket (connection ?s) = Some []" by (simp add: new_CompanionProtocol_def)
  have h2: "connected (connection ?s)" by (simp add: new_CompanionProtocol_def)
  have h3: "chacha (connection ?s) = None" by (simp add: new_CompanionProtocol_def)
  have h4: "pack (JObj [(''_i'', JStr ''a''), (''_t'', JNum (Integer MessageType_Request)),
                  (''_c'', JObj []), (''_x'', JNum (Integer (int (xid ?s))))]) = Inr ?packed"
    using pack_request_7 by (simp add: new_CompanionProtocol_def MessageType_Request_def)
  note t = sendCommand_transaction_id [of ?lib "''a''" "JObj []" ?s 3 "[]" ?packed]
  from t h1 h2 h3 h4
  have "connection (sendCommand ?lib ''a'' (JObj []) ?s)
      = (connection ?s)\<lparr>socket := Some ([] @ [frame_header E_OPACK (length ?packed) @ ?packed])\<rparr>"
    by blast
  then have c: "connection (sendCommand ?lib ''a'' (JObj []) ?s)
       = \<lparr>socket = Some [[0x08, 0, 0, 0x12, 0xE4, 0x42, 0x5F, 0x69, 0x41, 0x61, 0x42, 0x5F, 0x74,
            0x0A, 0x42, 0x5F, 0x63, 0xE0, 0x42, 0x5F, 0x78, 0x0F]],
          chacha = None, connected = True\<rparr>"
    by (simp add: new_CompanionProtocol_def E_OPACK_def frame_header_small)
  from t have "pendingRequests (sendCommand ?lib ''a'' (JObj []) ?s)
      = AList.update (xid ?s) (exchanges ?s) (pendingRequests ?s)"
    by blast
  then have p: "pendingRequests (sendCommand ?lib ''a'' (JObj []) ?s) = [(7, 0)]"
    by (simp add: new_CompanionProtocol_def)
  have h5: "xid ?s < 2 ^ 53" by (simp add: new_CompanionProtocol_def)
  have h6: "xid ?s + 3 \<le> 2 ^ 53" by (simp add: new_CompanionProtocol_def)
  from t h5 have "xid (sendCommand ?lib ''a'' (JObj []) ?s) = xid ?s + 1"
    by blast
  then have x1: "xid (sendCommand ?lib ''a'' (JObj []) ?s) = 8"
    by (simp add: new_CompanionProtocol_def)
  from t h6 have "xid ((sendCommand ?lib ''a'' (JObj []) ^^ 3) ?s) = xid ?s + 3"
    by blast
  then have x3: "xid ((sendCommand ?lib ''a'' (JObj []) ^^ 3) ?s) = 10"
    by (simp add: new_CompanionProtocol_def)
  show ?thesis
    by (intro conjI h1 h2 h3 h4 c p h5 x1 h6 x3)
qed

end
